theory Spec2Isabelle
  imports Main "HOL-Library.Word" "HOL-Library.AList" "HOL-Library.Sublist"
begin

section \<open>Images\<close>

text \<open>
  The program is \<^verbatim>\<open>resize_pngs.py\<close>: \<^verbatim>\<open>trim_transparent_edges\<close> crops the
  transparent margin of a Pillow image, \<^verbatim>\<open>resize_replace_and_backup\<close> moves every
  PNG of a folder to a backup folder and writes a trimmed, resized copy in its place.

  A pixel of the RGBA representation has four 8-bit channels. An image is kept in its
  own pixel format \<open>'p\<close>; what the program needs from the format is the conversion of a
  pixel to RGBA (\<^verbatim>\<open>img.convert('RGBA')\<close> works pixel by pixel) and the all-zero pixel
  with which Pillow fills the part of a crop box that lies outside the image.
\<close>

record rgba =
  red :: "8 word"
  green :: "8 word"
  blue :: "8 word"
  alpha :: "8 word"

record 'p pixel_mode =
  to_rgba :: "'p \<Rightarrow> rgba"
  zero_px :: "'p"

text \<open>\<open>pixels img ! y ! x\<close> is the pixel of row \<open>y\<close> and column \<open>x\<close>.\<close>

record 'p pil_image =
  width :: nat
  height :: nat
  pixels :: "'p list list"

definition wf_image :: "'p pil_image \<Rightarrow> bool" where
  "wf_image img \<longleftrightarrow>
     length (pixels img) = height img \<and> list_all (\<lambda>row. length row = width img) (pixels img)"

text \<open>The exceptions of the program, named after the step that raises them.\<close>

datatype error =
    IndexError
  | CropError
  | MoveError
  | OpenError
  | ResizeError
  | SaveError
  | MakedirsError
  | ListdirError

subsection \<open>The NumPy operations of the trimmer\<close>

text \<open>
  \<^verbatim>\<open>np.array(img.convert('RGBA'))[:, :, 3]\<close>: the alpha values, one list per row.
\<close>

definition alpha_channel :: "'p pixel_mode \<Rightarrow> 'p pil_image \<Rightarrow> 8 word list list" where
  "alpha_channel m img = map (map (\<lambda>p. alpha (to_rgba m p))) (pixels img)"

text \<open>\<^verbatim>\<open>a > 0\<close> on an array of unsigned bytes.\<close>

definition gt_zero :: "8 word list list \<Rightarrow> bool list list" where
  "gt_zero a = map (map (\<lambda>v. 0 < v)) a"

text \<open>\<^verbatim>\<open>np.any(a, axis=1)\<close>: one truth value per row.\<close>

definition np_any_axis1 :: "bool list list \<Rightarrow> bool list" where
  "np_any_axis1 a = map (\<lambda>row. list_ex (\<lambda>b. b) row) a"

text \<open>
  \<^verbatim>\<open>np.any(a, axis=0)\<close>: one truth value per column; the number of columns is the
  second component of the array's shape, the width of the image.
\<close>

definition np_any_axis0 :: "nat \<Rightarrow> bool list list \<Rightarrow> bool list" where
  "np_any_axis0 w a = map (\<lambda>x. list_ex (\<lambda>row. row ! x) a) [0..<w]"

text \<open>\<^verbatim>\<open>np.where(v)[0]\<close>: the indices of the true entries, ascending.\<close>

definition np_where :: "bool list \<Rightarrow> nat list" where
  "np_where v = filter (\<lambda>i. v ! i) [0..<length v]"

text \<open>
  \<^verbatim>\<open>idx.any()\<close> on an array of integers: true when some element is not zero.
\<close>

definition np_any :: "nat list \<Rightarrow> bool" where
  "np_any idx = list_ex (\<lambda>i. i \<noteq> 0) idx"

subsection \<open>Pillow's crop\<close>

text \<open>
  \<^verbatim>\<open>img.crop((left, upper, right, lower))\<close>: an image of size
  \<open>(right - left, lower - upper)\<close>; Pillow raises when \<open>right < left\<close> or
  \<open>lower < upper\<close>, and fills what lies outside the image with zero pixels.
\<close>

definition getpixel_or_zero :: "'p pixel_mode \<Rightarrow> 'p pil_image \<Rightarrow> nat \<Rightarrow> nat \<Rightarrow> 'p" where
  "getpixel_or_zero m img x y =
     (if x < width img \<and> y < height img then pixels img ! y ! x else zero_px m)"

definition crop :: "'p pixel_mode \<Rightarrow> 'p pil_image \<Rightarrow> nat \<times> nat \<times> nat \<times> nat \<Rightarrow> error + 'p pil_image" where
  "crop m img box =
     (case box of (left, upper, right, lower) \<Rightarrow>
        if right < left \<or> lower < upper then Inl CropError
        else Inr \<lparr>width = right - left, height = lower - upper,
                  pixels = map (\<lambda>y. map (\<lambda>x. getpixel_or_zero m img (left + x) (upper + y))
                                         [0..<right - left])
                               [0..<lower - upper]\<rparr>)"

subsection \<open>trim_transparent_edges\<close>

definition non_transparent_rows :: "'p pixel_mode \<Rightarrow> 'p pil_image \<Rightarrow> nat list" where
  "non_transparent_rows m img = np_where (np_any_axis1 (gt_zero (alpha_channel m img)))"

definition non_transparent_cols :: "'p pixel_mode \<Rightarrow> 'p pil_image \<Rightarrow> nat list" where
  "non_transparent_cols m img =
     np_where (np_any_axis0 (width img) (gt_zero (alpha_channel m img)))"

text \<open>
  \<^verbatim>\<open>rows[0]\<close> raises IndexError on an empty array; \<^verbatim>\<open>rows[-1]\<close> is the last
  element of a non-empty one.
\<close>

definition trim_transparent_edges :: "'p pixel_mode \<Rightarrow> 'p pil_image \<Rightarrow> error + 'p pil_image" where
  "trim_transparent_edges m img =
     (let rows = non_transparent_rows m img;
          cols = non_transparent_cols m img
      in if \<not> (np_any rows \<and> np_any cols) then Inr img
         else (case (rows, cols) of
                 (top_row # _, left_col # _) \<Rightarrow>
                   (let bottom_row = last rows; right_col = last cols
                    in crop m img (left_col, top_row, right_col + 1, bottom_row + 1))
               | _ \<Rightarrow> Inl IndexError))"



section \<open>The batch routine\<close>

subsection \<open>File system, console and environment\<close>

text \<open>
  A path is the list of the names that lead from the working directory to a file or a
  folder, without \<^verbatim>\<open>.\<close>, \<^verbatim>\<open>..\<close> and symbolic links; the working directory is the empty
  path, and \<^verbatim>\<open>os.path.join(folder, filename)\<close> appends a name. Names are compared
  exactly, as a case-sensitive file system does. The file system is the list of the
  paths that exist, each with what it is: a folder, or a file with its content, a value
  of an arbitrary type \<open>'b\<close>. A folder lists its entries in the order of that list.
\<close>

type_synonym path = "string list"

datatype 'b node = File 'b | Dir

type_synonym 'b filesystem = "(path \<times> 'b node) list"

definition join :: "path \<Rightarrow> string \<Rightarrow> path" where
  "join folder name = folder @ [name]"

definition entry :: "'b filesystem \<Rightarrow> path \<Rightarrow> 'b node option" where
  "entry fs p = (if p = [] then Some Dir else map_of fs p)"

definition path_exists :: "'b filesystem \<Rightarrow> path \<Rightarrow> bool" where
  "path_exists fs p \<longleftrightarrow> entry fs p \<noteq> None"

definition isdir :: "'b filesystem \<Rightarrow> path \<Rightarrow> bool" where
  "isdir fs p \<longleftrightarrow> entry fs p = Some Dir"

definition isfile :: "'b filesystem \<Rightarrow> path \<Rightarrow> bool" where
  "isfile fs p \<longleftrightarrow> (case entry fs p of Some (File content) \<Rightarrow> True | _ \<Rightarrow> False)"

text \<open>The names in a folder.\<close>

definition children :: "'b filesystem \<Rightarrow> path \<Rightarrow> string list" where
  "children fs folder =
     map (\<lambda>(p, n). last p) (filter (\<lambda>(p, n). p \<noteq> [] \<and> butlast p = folder) fs)"

text \<open>The lines the routine prints.\<close>

datatype message =
    TargetFolderNotFound path
  | BackupFolderCreated path
  | NoPngFiles path
  | ProcessingCount nat
  | ListingFailed error
  | FileDone string
  | FileFailed string error
  | AllDone

text \<open>
  What the program cannot decide by itself is a parameter: whether the operating system
  refuses an operation (permissions, a full disk, no memory), how Pillow decodes and
  encodes a file, and the pixels that the Lanczos filter computes with floating-point
  arithmetic. When the system refuses \<^verbatim>\<open>os.makedirs\<close> it does so after some of the
  missing parent folders have been created. A failed \<^verbatim>\<open>save\<close> may leave a partial file
  behind.
\<close>

datatype 'b save_result = Saved | SaveFailed "'b option"

record ('b, 'p) env =
  mode :: "'p pixel_mode"
  makedirs_refused :: "path \<Rightarrow> nat option"
  listdir_fails :: "path \<Rightarrow> bool"
  move_fails :: "path \<Rightarrow> path \<Rightarrow> bool"
  decode :: "'b \<Rightarrow> 'p pil_image option"
  resize_fails :: "'p pil_image \<Rightarrow> nat \<Rightarrow> nat \<Rightarrow> bool"
  lanczos :: "'p pil_image \<Rightarrow> nat \<Rightarrow> nat \<Rightarrow> nat \<Rightarrow> nat \<Rightarrow> 'p"
  encode :: "'p pil_image \<Rightarrow> 'b"
  save_outcome :: "path \<Rightarrow> 'p pil_image \<Rightarrow> 'b save_result"

subsection \<open>Library calls\<close>

text \<open>
  \<^verbatim>\<open>os.makedirs(p)\<close> creates the folder and every missing folder on the way to it, the
  outermost first; each new folder is a new entry of its parent. It raises when the path
  exists, when a name on the way is a file, or when the system refuses; in the last case
  the parents created so far remain.
\<close>

definition missing_folders :: "'b filesystem \<Rightarrow> path \<Rightarrow> path list" where
  "missing_folders fs p = filter (\<lambda>q. \<not> path_exists fs q) (prefixes p)"

definition makedirs ::
  "('b, 'p) env \<Rightarrow> 'b filesystem \<Rightarrow> path \<Rightarrow> (error + unit) \<times> 'b filesystem" where
  "makedirs env fs p =
     (if path_exists fs p \<or> list_ex (isfile fs) (prefixes p) then (Inl MakedirsError, fs)
      else (case makedirs_refused env p of
              Some k \<Rightarrow>
                (Inl MakedirsError,
                 fs @ map (\<lambda>q. (q, Dir)) (take k (butlast (missing_folders fs p))))
            | None \<Rightarrow> (Inr (), fs @ map (\<lambda>q. (q, Dir)) (missing_folders fs p))))"

definition listdir :: "('b, 'p) env \<Rightarrow> 'b filesystem \<Rightarrow> path \<Rightarrow> error + string list" where
  "listdir env fs p =
     (if \<not> isdir fs p \<or> listdir_fails env p then Inl ListdirError else Inr (children fs p))"

text \<open>\<^verbatim>\<open>f.lower().endswith('.png')\<close>; only the ASCII letters matter for the suffix.\<close>

definition lower_char :: "char \<Rightarrow> char" where
  "lower_char c =
     (let n = (of_char c :: nat) in if 65 \<le> n \<and> n \<le> 90 then char_of (n + 32) else c)"

definition lower :: "string \<Rightarrow> string" where
  "lower s = map lower_char s"

definition endswith :: "string \<Rightarrow> string \<Rightarrow> bool" where
  "endswith s ending \<longleftrightarrow>
     length ending \<le> length s \<and> drop (length s - length ending) s = ending"

definition is_png :: "string \<Rightarrow> bool" where
  "is_png f \<longleftrightarrow> endswith (lower f) ''.png''"

text \<open>
  \<^verbatim>\<open>shutil.move(src, dst)\<close>. When \<open>dst\<close> is an existing folder the source is moved into
  it, under its own name, unless the folder has such an entry already. A file replaces a
  file at the destination. A folder moves with everything below it, and neither into
  itself nor onto something that exists. The call raises when the source is missing,
  when the folder of the destination is missing, or when the system refuses, and then it
  has changed nothing. Moving a path onto itself changes nothing.
\<close>

definition relocate :: "path \<Rightarrow> path \<Rightarrow> 'b filesystem \<Rightarrow> 'b filesystem" where
  "relocate src dst fs =
     map (\<lambda>(p, n). (if prefix src p then dst @ drop (length src) p else p, n)) fs"

definition real_dst :: "'b filesystem \<Rightarrow> path \<Rightarrow> path \<Rightarrow> path" where
  "real_dst fs src dst = (if isdir fs dst then dst @ [last src] else dst)"

definition move ::
  "('b, 'p) env \<Rightarrow> 'b filesystem \<Rightarrow> path \<Rightarrow> path \<Rightarrow> error + 'b filesystem" where
  "move env fs src dst =
     (case entry fs src of
        None \<Rightarrow> Inl MoveError
      | Some node \<Rightarrow>
          if src = [] \<or> move_fails env src dst then Inl MoveError
          else if src = dst then Inr fs
          else if isdir fs dst \<and> path_exists fs (real_dst fs src dst) then Inl MoveError
          else if \<not> isdir fs (butlast (real_dst fs src dst)) then Inl MoveError
          else (case node of
                  File content \<Rightarrow>
                    Inr (AList.update (real_dst fs src dst) (File content) (AList.delete src fs))
                | Dir \<Rightarrow>
                    if prefix src (real_dst fs src dst) \<or> path_exists fs (real_dst fs src dst)
                    then Inl MoveError
                    else Inr (relocate src (real_dst fs src dst) fs)))"

text \<open>\<^verbatim>\<open>Image.open(path)\<close> together with the decoding of the pixel data.\<close>

definition image_open :: "('b, 'p) env \<Rightarrow> 'b filesystem \<Rightarrow> path \<Rightarrow> error + 'p pil_image" where
  "image_open env fs p =
     (case entry fs p of
        Some (File content) \<Rightarrow>
          (case decode env content of None \<Rightarrow> Inl OpenError | Some img \<Rightarrow> Inr img)
      | _ \<Rightarrow> Inl OpenError)"

text \<open>
  \<^verbatim>\<open>img.resize((w, h), Image.Resampling.LANCZOS)\<close>: Pillow raises unless both are at
  least 1, and when the system has no memory for the result; the result has exactly that
  size, its pixels are those of the filter.
\<close>

definition resize :: "('b, 'p) env \<Rightarrow> 'p pil_image \<Rightarrow> int \<times> int \<Rightarrow> error + 'p pil_image" where
  "resize env img wh =
     (case wh of (w, h) \<Rightarrow>
        if w < 1 \<or> h < 1 \<or> resize_fails env img (nat w) (nat h) then Inl ResizeError
        else Inr \<lparr>width = nat w, height = nat h,
                  pixels = map (\<lambda>y. map (\<lambda>x. lanczos env img (nat w) (nat h) x y) [0..<nat w])
                               [0..<nat h]\<rparr>)"

text \<open>
  \<^verbatim>\<open>os.path.splitext(name)[1]\<close>: the extension starts at the last dot; the dots at the
  start of a name are not the start of an extension.
\<close>

definition splitext_ext :: "string \<Rightarrow> string" where
  "splitext_ext name =
     (let stem = dropWhile (\<lambda>c. c = CHR ''.'') name
      in if CHR ''.'' \<in> set stem
         then CHR ''.'' # rev (takeWhile (\<lambda>c. c \<noteq> CHR ''.'') (rev stem))
         else [])"

text \<open>
  \<^verbatim>\<open>img.save(path)\<close> takes the format from the extension of the name and raises when
  there is none; the routine saves under names that end in \<^verbatim>\<open>.png\<close> only, so the
  extension is that of a PNG file or empty. It also raises when the folder is missing or
  the path is a folder. On success the path holds the encoded image; on a failure of the
  write the path is as before or holds what the failed write left.
\<close>

definition save ::
  "('b, 'p) env \<Rightarrow> 'b filesystem \<Rightarrow> path \<Rightarrow> 'p pil_image \<Rightarrow> (error + unit) \<times> 'b filesystem" where
  "save env fs p img =
     (if p = [] \<or> lower (splitext_ext (last p)) \<noteq> ''.png''
         \<or> \<not> isdir fs (butlast p) \<or> isdir fs p
      then (Inl SaveError, fs)
      else (case save_outcome env p img of
              Saved \<Rightarrow> (Inr (), AList.update p (File (encode env img)) fs)
            | SaveFailed None \<Rightarrow> (Inl SaveError, fs)
            | SaveFailed (Some partial) \<Rightarrow> (Inl SaveError, AList.update p (File partial) fs)))"

subsection \<open>resize_replace_and_backup\<close>

text \<open>The body of the loop: the \<^verbatim>\<open>try\<close> block for one file and its \<^verbatim>\<open>except\<close>.\<close>

definition process_file ::
  "('b, 'p) env \<Rightarrow> path \<Rightarrow> path \<Rightarrow> int \<Rightarrow> int \<Rightarrow> string \<Rightarrow> 'b filesystem
     \<Rightarrow> 'b filesystem \<times> message" where
  "process_file env target_folder backup_folder target_width target_height filename fs =
     (let original_path = join target_folder filename;
          backup_path = join backup_folder filename
      in case move env fs original_path backup_path of
           Inl e \<Rightarrow> (fs, FileFailed filename e)
         | Inr fs1 \<Rightarrow>
             (case image_open env fs1 backup_path of
                Inl e \<Rightarrow> (fs1, FileFailed filename e)
              | Inr img \<Rightarrow>
                  (case trim_transparent_edges (mode env) img of
                     Inl e \<Rightarrow> (fs1, FileFailed filename e)
                   | Inr trimmed_img \<Rightarrow>
                       (case resize env trimmed_img (target_width, target_height) of
                          Inl e \<Rightarrow> (fs1, FileFailed filename e)
                        | Inr resized_img \<Rightarrow>
                            (case save env fs1 original_path resized_img of
                               (Inl e, fs2) \<Rightarrow> (fs2, FileFailed filename e)
                             | (Inr _, fs2) \<Rightarrow> (fs2, FileDone filename))))))"

fun process_files ::
  "('b, 'p) env \<Rightarrow> path \<Rightarrow> path \<Rightarrow> int \<Rightarrow> int \<Rightarrow> string list \<Rightarrow> 'b filesystem
     \<Rightarrow> 'b filesystem \<times> message list" where
  "process_files env target_folder backup_folder target_width target_height [] fs = (fs, [])"
| "process_files env target_folder backup_folder target_width target_height (filename # rest) fs =
     (case process_file env target_folder backup_folder target_width target_height filename fs of
        (fs1, line) \<Rightarrow>
          (case process_files env target_folder backup_folder target_width target_height rest fs1 of
             (fs2, lines) \<Rightarrow> (fs2, line # lines)))"

text \<open>
  The result of a run: the file system it leaves, the lines it printed, and the exception
  that ended it if one was not caught.
\<close>

record 'b run_result =
  filesystem :: "'b filesystem"
  printed :: "message list"
  uncaught :: "error option"

definition resize_replace_and_backup ::
  "('b, 'p) env \<Rightarrow> 'b filesystem \<Rightarrow> path \<Rightarrow> path \<Rightarrow> int \<Rightarrow> int \<Rightarrow> 'b run_result" where
  "resize_replace_and_backup env fs target_folder backup_folder target_width target_height =
     (if \<not> isdir fs target_folder
      then \<lparr>filesystem = fs, printed = [TargetFolderNotFound target_folder], uncaught = None\<rparr>
      else
        (case (if \<not> isdir fs backup_folder
               then (case makedirs env fs backup_folder of
                       (Inl e, fs1) \<Rightarrow> Inl (e, fs1)
                     | (Inr _, fs1) \<Rightarrow> Inr (fs1, [BackupFolderCreated backup_folder]))
               else Inr (fs, [])) of
           Inl (e, fs1) \<Rightarrow> \<lparr>filesystem = fs1, printed = [], uncaught = Some e\<rparr>
         | Inr (fs1, out1) \<Rightarrow>
             (case listdir env fs1 target_folder of
                Inl e \<Rightarrow> \<lparr>filesystem = fs1, printed = out1 @ [ListingFailed e], uncaught = None\<rparr>
              | Inr entries \<Rightarrow>
                  (let png_files = filter is_png entries
                   in if png_files = []
                      then \<lparr>filesystem = fs1, printed = out1 @ [NoPngFiles target_folder],
                            uncaught = None\<rparr>
                      else (case process_files env target_folder backup_folder target_width
                                   target_height png_files fs1 of
                              (fs2, out2) \<Rightarrow>
                                \<lparr>filesystem = fs2,
                                 printed = out1 @ [ProcessingCount (length png_files)] @ out2
                                           @ [AllDone],
                                 uncaught = None\<rparr>)))))"

section \<open>Auxiliary notions and example data\<close>

text \<open>A pixel that is not fully transparent, by its coordinates.\<close>

definition opaque_at :: "'p pixel_mode \<Rightarrow> 'p pil_image \<Rightarrow> nat \<Rightarrow> nat \<Rightarrow> bool" where
  "opaque_at m img x y \<longleftrightarrow> 0 < alpha (to_rgba m (pixels img ! y ! x))"

text \<open>The part of an image inside a box that lies within the image.\<close>

definition sub_image :: "'p pil_image \<Rightarrow> nat \<Rightarrow> nat \<Rightarrow> nat \<Rightarrow> nat \<Rightarrow> 'p pil_image" where
  "sub_image img l t r b =
     \<lparr>width = r - l, height = b - t,
      pixels = map (\<lambda>y. map (\<lambda>x. pixels img ! (t + y) ! (l + x)) [0..<r - l]) [0..<b - t]\<rparr>"

text \<open>Images in RGBA mode, where the conversion to RGBA changes nothing.\<close>

definition RGBA :: "rgba pixel_mode" where
  "RGBA = \<lparr>to_rgba = (\<lambda>p. p), zero_px = \<lparr>red = 0, green = 0, blue = 0, alpha = 0\<rparr>\<rparr>"

definition clear_px :: rgba where
  "clear_px = \<lparr>red = 0, green = 0, blue = 0, alpha = 0\<rparr>"

definition solid_px :: rgba where
  "solid_px = \<lparr>red = 255, green = 0, blue = 0, alpha = 255\<rparr>"

definition faint_px :: rgba where
  "faint_px = \<lparr>red = 0, green = 0, blue = 255, alpha = 1\<rparr>"

text \<open>A 2 by 2 image whose only visible pixel is in the top left corner.\<close>

definition corner_image :: "rgba pil_image" where
  "corner_image = \<lparr>width = 2, height = 2, pixels = [[solid_px, clear_px], [clear_px, clear_px]]\<rparr>"

text \<open>A fully transparent 3 by 2 image.\<close>

definition blank_image :: "rgba pil_image" where
  "blank_image =
     \<lparr>width = 3, height = 2, pixels = [[clear_px, clear_px, clear_px], [clear_px, clear_px, clear_px]]\<rparr>"

text \<open>A 4 by 4 image with a visible block of 2 by 2 pixels at offset (1, 1).\<close>

definition block_image :: "rgba pil_image" where
  "block_image =
     \<lparr>width = 4, height = 4,
      pixels = [[clear_px, clear_px, clear_px, clear_px],
                [clear_px, solid_px, faint_px, clear_px],
                [clear_px, faint_px, solid_px, clear_px],
                [clear_px, clear_px, clear_px, clear_px]]\<rparr>"

definition block_cropped :: "rgba pil_image" where
  "block_cropped = \<lparr>width = 2, height = 2, pixels = [[solid_px, faint_px], [faint_px, solid_px]]\<rparr>"


text \<open>The file system and the first printed line once the backup folder exists.\<close>

definition with_backup_folder :: "'b filesystem \<Rightarrow> path \<Rightarrow> 'b filesystem" where
  "with_backup_folder fs bf =
     (if isdir fs bf then fs else fs @ map (\<lambda>q. (q, Dir)) (missing_folders fs bf))"

definition backup_notice :: "'b filesystem \<Rightarrow> path \<Rightarrow> message list" where
  "backup_notice fs bf = (if isdir fs bf then [] else [BackupFolderCreated bf])"

text \<open>
  Example files: a file decodes to an RGBA image or is not an image; the example
  environment refuses nothing, and resamples by taking the nearest pixel.
\<close>

datatype file_content = Png "rgba pil_image" | Garbage

definition nearest :: "rgba pil_image \<Rightarrow> nat \<Rightarrow> nat \<Rightarrow> nat \<Rightarrow> nat \<Rightarrow> rgba" where
  "nearest img w h x y = pixels img ! (y * height img div h) ! (x * width img div w)"

definition example_env :: "(file_content, rgba) env" where
  "example_env =
     \<lparr>mode = RGBA,
      makedirs_refused = (\<lambda>p. None),
      listdir_fails = (\<lambda>p. False),
      move_fails = (\<lambda>src dst. False),
      decode = (\<lambda>content. case content of Png img \<Rightarrow> Some img | Garbage \<Rightarrow> None),
      resize_fails = (\<lambda>img w h. False),
      lanczos = nearest,
      encode = Png,
      save_outcome = (\<lambda>p img. Saved)\<rparr>"

definition example_fs :: "file_content filesystem" where
  "example_fs =
     [([''original_pngs''], Dir),
      ([''original_pngs'', ''a.png''], File (Png block_image)),
      ([''original_pngs'', ''b.png''], File Garbage),
      ([''original_pngs'', ''notes.txt''], File Garbage),
      ([''original_pngs'', ''C.PNG''], File (Png corner_image)),
      ([''used_pngs''], Dir)]"

definition notes_fs :: "file_content filesystem" where
  "notes_fs = [([''original_pngs''], Dir), ([''original_pngs'', ''notes.txt''], File Garbage)]"

definition other_fs :: "file_content filesystem" where
  "other_fs = [([''elsewhere''], Dir), ([''elsewhere'', ''a.png''], File (Png corner_image))]"


text \<open>
  What the processing of a file name reads: the two folders, the source path and the
  backup path of the name, and the path of the name inside a folder at the backup path.
\<close>

definition same_slot :: "path \<Rightarrow> path \<Rightarrow> 'b filesystem \<Rightarrow> 'b filesystem \<Rightarrow> string \<Rightarrow> bool" where
  "same_slot tf bf fs gs n \<longleftrightarrow>
     entry fs tf = entry gs tf \<and> entry fs bf = entry gs bf
     \<and> entry fs (join tf n) = entry gs (join tf n)
     \<and> entry fs (join bf n) = entry gs (join bf n)
     \<and> entry fs (join (join bf n) n) = entry gs (join (join bf n) n)"

text \<open>The folders on the way to a folder, and the folder, exist.\<close>

definition folders_exist :: "'b filesystem \<Rightarrow> path \<Rightarrow> bool" where
  "folders_exist fs p \<longleftrightarrow> list_all (isdir fs) (prefixes p)"

text \<open>The names over which the loop of a run goes.\<close>

definition listed_png_files :: "'b filesystem \<Rightarrow> path \<Rightarrow> path \<Rightarrow> string list" where
  "listed_png_files fs tf bf = filter is_png (children (with_backup_folder fs bf) tf)"

section \<open>The trimmer\<close>

subsection \<open>Rows and columns with a visible pixel\<close>

lemma set_np_where: "set (np_where v) = {i. i < length v \<and> v ! i}"
  by (auto simp: np_where_def)

lemma sorted_np_where: "sorted (np_where v)"
  by (simp add: np_where_def sorted_wrt_filter)

lemma wf_row_length: "wf_image img \<Longrightarrow> y < height img \<Longrightarrow> length (pixels img ! y) = width img"
  by (simp add: wf_image_def list_all_length)

lemma in_rows_iff:
  assumes "wf_image img"
  shows "y \<in> set (non_transparent_rows m img) \<longleftrightarrow>
         y < height img \<and> (\<exists>x<width img. opaque_at m img x y)"
proof -
  have len: "length (pixels img) = height img"
    using assms by (simp add: wf_image_def)
  show ?thesis
  proof (cases "y < height img")
    case False
    then show ?thesis
      by (simp add: non_transparent_rows_def set_np_where np_any_axis1_def gt_zero_def
          alpha_channel_def len)
  next
    case True
    then have w: "length (pixels img ! y) = width img"
      using assms by (rule wf_row_length[rotated])
    have "y \<in> set (non_transparent_rows m img) \<longleftrightarrow>
          (\<exists>p\<in>set (pixels img ! y). 0 < alpha (to_rgba m p))"
      using True
      by (auto simp: non_transparent_rows_def set_np_where np_any_axis1_def gt_zero_def
          alpha_channel_def len list_ex_iff)
    also have "\<dots> \<longleftrightarrow> (\<exists>x<width img. opaque_at m img x y)"
    proof
      assume "\<exists>p\<in>set (pixels img ! y). 0 < alpha (to_rgba m p)"
      then obtain p where p: "p \<in> set (pixels img ! y)" "0 < alpha (to_rgba m p)"
        by blast
      then obtain x where "x < length (pixels img ! y)" "pixels img ! y ! x = p"
        by (auto simp: in_set_conv_nth)
      with p w show "\<exists>x<width img. opaque_at m img x y"
        by (auto simp: opaque_at_def)
    next
      assume "\<exists>x<width img. opaque_at m img x y"
      then obtain x where x: "x < width img" "opaque_at m img x y"
        by blast
      then have "pixels img ! y ! x \<in> set (pixels img ! y)"
        using w by simp
      with x show "\<exists>p\<in>set (pixels img ! y). 0 < alpha (to_rgba m p)"
        unfolding opaque_at_def by blast
    qed
    finally show ?thesis using True by simp
  qed
qed

lemma in_cols_iff:
  assumes "wf_image img"
  shows "x \<in> set (non_transparent_cols m img) \<longleftrightarrow>
         x < width img \<and> (\<exists>y<height img. opaque_at m img x y)"
proof -
  have len: "length (pixels img) = height img"
    using assms by (simp add: wf_image_def)
  show ?thesis
  proof (cases "x < width img")
    case False
    then show ?thesis
      by (simp add: non_transparent_cols_def set_np_where np_any_axis0_def)
  next
    case True
    have "x \<in> set (non_transparent_cols m img) \<longleftrightarrow>
          (\<exists>row\<in>set (pixels img). 0 < alpha (to_rgba m (row ! x)))"
    proof -
      have "\<And>row. row \<in> set (pixels img) \<Longrightarrow> x < length row"
        using assms True by (simp add: wf_image_def list_all_iff)
      then show ?thesis
        using True
        by (auto simp: non_transparent_cols_def set_np_where np_any_axis0_def gt_zero_def
            alpha_channel_def list_ex_iff)
    qed
    also have "\<dots> \<longleftrightarrow> (\<exists>y<height img. opaque_at m img x y)"
      unfolding opaque_at_def using len by (metis in_set_conv_nth)
    finally show ?thesis using True by simp
  qed
qed

lemma np_any_nonempty: "np_any idx \<Longrightarrow> idx \<noteq> []"
  by (auto simp: np_any_def)

lemma sorted_hd_le: "sorted xs \<Longrightarrow> x \<in> set xs \<Longrightarrow> hd xs \<le> (x::nat)"
  by (cases xs) auto


lemma sorted_le_last: "sorted xs \<Longrightarrow> x \<in> set xs \<Longrightarrow> (x::nat) \<le> last xs"
  by (induction xs) auto

lemma crop_in_range:
  assumes "wf_image img" "l \<le> r" "r \<le> width img" "t \<le> b" "b \<le> height img"
  shows "crop m img (l, t, r, b) =
         Inr \<lparr>width = r - l, height = b - t,
              pixels = map (\<lambda>y. map (\<lambda>x. pixels img ! (t + y) ! (l + x)) [0..<r - l])
                           [0..<b - t]\<rparr>"
  using assms by (auto simp: crop_def getpixel_or_zero_def)

lemma crop_full:
  assumes "wf_image img"
  shows "crop m img (0, 0, width img, height img) = Inr img"
proof -
  have len: "length (pixels img) = height img"
    using assms by (simp add: wf_image_def)
  have "map (\<lambda>y. map (\<lambda>x. pixels img ! y ! x) [0..<width img]) [0..<height img] = pixels img"
  proof (rule nth_equalityI)
    show "length (map (\<lambda>y. map (\<lambda>x. pixels img ! y ! x) [0..<width img]) [0..<height img])
          = length (pixels img)"
      by (simp add: len)
  next
    fix i
    assume "i < length (map (\<lambda>y. map (\<lambda>x. pixels img ! y ! x) [0..<width img]) [0..<height img])"
    then have i: "i < height img" by simp
    then have "length (pixels img ! i) = width img"
      using assms by (simp add: wf_row_length)
    then have "map (\<lambda>x. pixels img ! i ! x) [0..<width img] = pixels img ! i"
      by (metis map_nth)
    with i show "map (\<lambda>y. map (\<lambda>x. pixels img ! y ! x) [0..<width img]) [0..<height img] ! i
                 = pixels img ! i"
      by simp
  qed
  then show ?thesis
    using crop_in_range[OF assms, of 0 "width img" 0 "height img" m] by simp
qed

lemma trim_cases:
  "(\<not> (np_any (non_transparent_rows m img) \<and> np_any (non_transparent_cols m img))
      \<and> trim_transparent_edges m img = Inr img)
   \<or> (np_any (non_transparent_rows m img) \<and> np_any (non_transparent_cols m img)
      \<and> trim_transparent_edges m img =
          crop m img (hd (non_transparent_cols m img), hd (non_transparent_rows m img),
                      last (non_transparent_cols m img) + 1,
                      last (non_transparent_rows m img) + 1))"
  by (auto simp: trim_transparent_edges_def Let_def dest!: np_any_nonempty
      split: list.splits)


text \<open>The bounding box computed in the cropping branch.\<close>

lemma bbox_rows:
  assumes "wf_image img" "non_transparent_rows m img \<noteq> []"
  shows "hd (non_transparent_rows m img) \<in> set (non_transparent_rows m img)"
    and "last (non_transparent_rows m img) \<in> set (non_transparent_rows m img)"
    and "hd (non_transparent_rows m img) \<le> last (non_transparent_rows m img)"
    and "last (non_transparent_rows m img) < height img"
proof -
  let ?rows = "non_transparent_rows m img"
  show h: "hd ?rows \<in> set ?rows" and l: "last ?rows \<in> set ?rows"
    using assms(2) by simp_all
  have "sorted ?rows"
    by (simp add: non_transparent_rows_def sorted_np_where)
  then show "hd ?rows \<le> last ?rows"
    using h by (rule sorted_le_last)
  show "last ?rows < height img"
    using l in_rows_iff[OF assms(1)] by blast
qed

lemma bbox_cols:
  assumes "wf_image img" "non_transparent_cols m img \<noteq> []"
  shows "hd (non_transparent_cols m img) \<in> set (non_transparent_cols m img)"
    and "last (non_transparent_cols m img) \<in> set (non_transparent_cols m img)"
    and "hd (non_transparent_cols m img) \<le> last (non_transparent_cols m img)"
    and "last (non_transparent_cols m img) < width img"
proof -
  let ?cols = "non_transparent_cols m img"
  show h: "hd ?cols \<in> set ?cols" and l: "last ?cols \<in> set ?cols"
    using assms(2) by simp_all
  have "sorted ?cols"
    by (simp add: non_transparent_cols_def sorted_np_where)
  then show "hd ?cols \<le> last ?cols"
    using h by (rule sorted_le_last)
  show "last ?cols < width img"
    using l in_cols_iff[OF assms(1)] by blast
qed

lemma sorted_rows: "sorted (non_transparent_rows m img)"
  by (simp add: non_transparent_rows_def sorted_np_where)

lemma sorted_cols: "sorted (non_transparent_cols m img)"
  by (simp add: non_transparent_cols_def sorted_np_where)

lemma wf_sub_image: "wf_image (sub_image img l t r b)"
  by (simp add: wf_image_def sub_image_def list_all_iff)

lemma sub_image_pixel:
  "x < r - l \<Longrightarrow> y < b - t \<Longrightarrow> pixels (sub_image img l t r b) ! y ! x = pixels img ! (t + y) ! (l + x)"
  by (simp add: sub_image_def)

lemma trim_crops:
  assumes wf: "wf_image img"
    and any: "np_any (non_transparent_rows m img)" "np_any (non_transparent_cols m img)"
  shows "trim_transparent_edges m img =
         Inr (sub_image img (hd (non_transparent_cols m img)) (hd (non_transparent_rows m img))
                (last (non_transparent_cols m img) + 1) (last (non_transparent_rows m img) + 1))"
proof -
  have ne: "non_transparent_rows m img \<noteq> []" "non_transparent_cols m img \<noteq> []"
    using any by (auto dest: np_any_nonempty)
  have "trim_transparent_edges m img =
          crop m img (hd (non_transparent_cols m img), hd (non_transparent_rows m img),
                      last (non_transparent_cols m img) + 1,
                      last (non_transparent_rows m img) + 1)"
    using trim_cases[of m img] any by blast
  also have "\<dots> = Inr (sub_image img (hd (non_transparent_cols m img))
                (hd (non_transparent_rows m img))
                (last (non_transparent_cols m img) + 1) (last (non_transparent_rows m img) + 1))"
    unfolding sub_image_def
    using bbox_rows(3,4)[OF wf ne(1)] bbox_cols(3,4)[OF wf ne(2)]
    by (intro crop_in_range[OF wf]) simp_all
  finally show ?thesis .
qed


lemma hd_zero: "sorted xs \<Longrightarrow> (0::nat) \<in> set xs \<Longrightarrow> hd xs = 0"
  using sorted_hd_le by fastforce

lemma last_max:
  "sorted xs \<Longrightarrow> (n::nat) \<in> set xs \<Longrightarrow> \<forall>x\<in>set xs. x \<le> n \<Longrightarrow> last xs = n"
  by (metis empty_iff last_in_set le_antisym list.set(1) sorted_le_last)

lemma opaque_sub_image:
  "x < r - l \<Longrightarrow> y < b - t \<Longrightarrow>
   opaque_at m (sub_image img l t r b) x y = opaque_at m img (l + x) (t + y)"
  by (simp add: opaque_at_def sub_image_pixel)

lemma trim_fixed_on_crop:
  assumes wf: "wf_image img"
    and any: "np_any (non_transparent_rows m img)" "np_any (non_transparent_cols m img)"
  defines "l \<equiv> hd (non_transparent_cols m img)"
    and "t \<equiv> hd (non_transparent_rows m img)"
    and "r \<equiv> last (non_transparent_cols m img)"
    and "b \<equiv> last (non_transparent_rows m img)"
  defines "c \<equiv> sub_image img l t (r + 1) (b + 1)"
  shows "trim_transparent_edges m c = Inr c"
proof -
  have ne: "non_transparent_rows m img \<noteq> []" "non_transparent_cols m img \<noteq> []"
    using any by (auto dest: np_any_nonempty)
  note R = bbox_rows[OF wf ne(1), folded t_def b_def]
  note C = bbox_cols[OF wf ne(2), folded l_def r_def]
  have wfc: "wf_image c"
    unfolding c_def by (rule wf_sub_image)
  have wc: "width c = r + 1 - l" and hc: "height c = b + 1 - t"
    by (simp_all add: c_def sub_image_def)
  have op: "opaque_at m c x y = opaque_at m img (l + x) (t + y)"
    if "x < r + 1 - l" "y < b + 1 - t" for x y
    unfolding c_def using that by (rule opaque_sub_image)
  have col_range: "l \<le> x \<and> x \<le> r" if "x \<in> set (non_transparent_cols m img)" for x
    using that sorted_hd_le[OF sorted_cols] sorted_le_last[OF sorted_cols]
    unfolding l_def r_def by blast
  have row_range: "t \<le> y \<and> y \<le> b" if "y \<in> set (non_transparent_rows m img)" for y
    using that sorted_hd_le[OF sorted_rows] sorted_le_last[OF sorted_rows]
    unfolding t_def b_def by blast
  have row_in: "y - t \<in> set (non_transparent_rows m c)"
    if y: "y \<in> set (non_transparent_rows m img)" for y
  proof -
    from y obtain x where x: "y < height img" "x < width img" "opaque_at m img x y"
      using in_rows_iff[OF wf] by blast
    then have "x \<in> set (non_transparent_cols m img)"
      using in_cols_iff[OF wf] by blast
    then have xr: "l \<le> x \<and> x \<le> r" by (rule col_range)
    have yr: "t \<le> y \<and> y \<le> b" using y by (rule row_range)
    have "x - l < r + 1 - l" "y - t < b + 1 - t"
      using xr yr by linarith+
    then have "opaque_at m c (x - l) (y - t) = opaque_at m img (l + (x - l)) (t + (y - t))"
      by (rule op)
    then have "opaque_at m c (x - l) (y - t)"
      using xr yr x(3) by simp
    then show ?thesis
      using in_rows_iff[OF wfc, of "y - t" m] xr yr wc hc by auto
  qed
  have col_in: "x - l \<in> set (non_transparent_cols m c)"
    if x: "x \<in> set (non_transparent_cols m img)" for x
  proof -
    from x obtain y where y: "x < width img" "y < height img" "opaque_at m img x y"
      using in_cols_iff[OF wf] by blast
    then have "y \<in> set (non_transparent_rows m img)"
      using in_rows_iff[OF wf] by blast
    then have yr: "t \<le> y \<and> y \<le> b" by (rule row_range)
    have xr: "l \<le> x \<and> x \<le> r" using x by (rule col_range)
    have "x - l < r + 1 - l" "y - t < b + 1 - t"
      using xr yr by linarith+
    then have "opaque_at m c (x - l) (y - t) = opaque_at m img (l + (x - l)) (t + (y - t))"
      by (rule op)
    then have "opaque_at m c (x - l) (y - t)"
      using xr yr y(3) by simp
    then show ?thesis
      using in_cols_iff[OF wfc, of "x - l" m] xr yr wc hc by auto
  qed
  have hd_rows: "hd (non_transparent_rows m c) = 0"
    using row_in[OF R(1)] by (simp add: hd_zero sorted_rows)
  have hd_cols: "hd (non_transparent_cols m c) = 0"
    using col_in[OF C(1)] by (simp add: hd_zero sorted_cols)
  have last_rows: "last (non_transparent_rows m c) = b - t"
  proof (rule last_max[OF sorted_rows row_in[OF R(2)]])
    show "\<forall>y\<in>set (non_transparent_rows m c). y \<le> b - t"
      using in_rows_iff[OF wfc] hc by auto
  qed
  have last_cols: "last (non_transparent_cols m c) = r - l"
  proof (rule last_max[OF sorted_cols col_in[OF C(2)]])
    show "\<forall>x\<in>set (non_transparent_cols m c). x \<le> r - l"
      using in_cols_iff[OF wfc] wc by auto
  qed
  have "crop m c (hd (non_transparent_cols m c), hd (non_transparent_rows m c),
                  last (non_transparent_cols m c) + 1, last (non_transparent_rows m c) + 1)
        = crop m c (0, 0, width c, height c)"
    using hd_rows hd_cols last_rows last_cols wc hc R(3) C(3) by (simp add: Suc_diff_le)
  also have "\<dots> = Inr c"
    using wfc by (rule crop_full)
  finally show ?thesis
    using trim_cases[of m c] by auto
qed


lemmas trim_eval =
  trim_transparent_edges_def non_transparent_rows_def non_transparent_cols_def np_where_def
  np_any_axis1_def np_any_axis0_def gt_zero_def alpha_channel_def np_any_def crop_def
  getpixel_or_zero_def RGBA_def clear_px_def solid_px_def faint_px_def upt_rec

subsection \<open>Claims about the trimmer\<close>

text \<open>
  C5. An image whose pixels all have alpha zero is returned as it is, with the same width,
  height and pixels, and no exception is raised.
\<close>

theorem trim_fully_transparent_unchanged:
  assumes "\<forall>row\<in>set (pixels img). \<forall>p\<in>set row. alpha (to_rgba m p) = 0"
  shows "trim_transparent_edges m img = Inr img"
proof -
  have len: "length (np_any_axis1 (gt_zero (alpha_channel m img))) = length (pixels img)"
    by (simp add: np_any_axis1_def gt_zero_def alpha_channel_def)
  have "\<not> np_any_axis1 (gt_zero (alpha_channel m img)) ! i"
    if i: "i < length (pixels img)" for i
  proof -
    have "pixels img ! i \<in> set (pixels img)"
      using i by simp
    then have "\<forall>p\<in>set (pixels img ! i). alpha (to_rgba m p) = 0"
      using assms by blast
    then show ?thesis
      using i by (simp add: np_any_axis1_def gt_zero_def alpha_channel_def list_ex_iff)
  qed
  then have "non_transparent_rows m img = []"
    unfolding non_transparent_rows_def np_where_def filter_empty_conv len by simp
  then show ?thesis
    by (simp add: trim_transparent_edges_def np_any_def)
qed

theorem trim_fully_transparent_unchanged_witness:
  "list_all (list_all (\<lambda>p. alpha (to_rgba RGBA p) = 0)) (pixels blank_image)
   \<and> trim_transparent_edges RGBA blank_image = Inr blank_image"
proof -
  have h: "\<forall>row\<in>set (pixels blank_image). \<forall>p\<in>set row. alpha (to_rgba RGBA p) = 0"
    by (simp add: blank_image_def RGBA_def clear_px_def)
  from trim_fully_transparent_unchanged[OF h] h show ?thesis
    by (simp add: list_all_iff)
qed

text \<open>
  C6. Trimming is idempotent: trimming an image succeeds, and trimming the result again
  gives the same image (same width, height and pixels).
\<close>

theorem trim_idempotent:
  assumes "wf_image img"
  shows "\<exists>t. trim_transparent_edges m img = Inr t \<and> trim_transparent_edges m t = Inr t"
proof (cases "np_any (non_transparent_rows m img) \<and> np_any (non_transparent_cols m img)")
  case False
  then have "trim_transparent_edges m img = Inr img"
    using trim_cases[of m img] by blast
  then show ?thesis by simp
next
  case True
  then show ?thesis
    using trim_crops[OF assms, of m] trim_fixed_on_crop[OF assms, of m] by simp
qed

theorem trim_idempotent_witness:
  "wf_image block_image
   \<and> trim_transparent_edges RGBA block_image = Inr block_cropped
   \<and> trim_transparent_edges RGBA block_cropped = Inr block_cropped"
proof -
  have wf: "wf_image block_image"
    by (simp add: wf_image_def block_image_def)
  have first: "trim_transparent_edges RGBA block_image = Inr block_cropped"
    by (simp add: trim_eval block_image_def block_cropped_def)
  from trim_idempotent[OF wf, of RGBA] first
  have "trim_transparent_edges RGBA block_cropped = Inr block_cropped"
    by auto
  with wf first show ?thesis by simp
qed

text \<open>
  C10. Trimming never enlarges: the result is no wider and no higher than the input, and
  each of its pixels is the pixel of the input at the same position shifted by the offset
  of the crop, which lies inside the input.
\<close>

theorem trim_never_enlarges:
  assumes "wf_image img"
  shows "\<exists>t ox oy. trim_transparent_edges m img = Inr t
           \<and> width t \<le> width img \<and> height t \<le> height img
           \<and> ox + width t \<le> width img \<and> oy + height t \<le> height img
           \<and> (\<forall>y<height t. \<forall>x<width t. pixels t ! y ! x = pixels img ! (oy + y) ! (ox + x))"
proof (cases "np_any (non_transparent_rows m img) \<and> np_any (non_transparent_cols m img)")
  case False
  then have "trim_transparent_edges m img = Inr img"
    using trim_cases[of m img] by blast
  then have "trim_transparent_edges m img = Inr img
           \<and> width img \<le> width img \<and> height img \<le> height img
           \<and> 0 + width img \<le> width img \<and> 0 + height img \<le> height img
           \<and> (\<forall>y<height img. \<forall>x<width img. pixels img ! y ! x = pixels img ! (0 + y) ! (0 + x))"
    by simp
  then show ?thesis by blast
next
  case True
  let ?l = "hd (non_transparent_cols m img)" and ?t = "hd (non_transparent_rows m img)"
  let ?r = "last (non_transparent_cols m img)" and ?b = "last (non_transparent_rows m img)"
  let ?c = "sub_image img ?l ?t (?r + 1) (?b + 1)"
  have ne: "non_transparent_rows m img \<noteq> []" "non_transparent_cols m img \<noteq> []"
    using True by (auto dest: np_any_nonempty)
  have tr: "trim_transparent_edges m img = Inr ?c"
    using True trim_crops[OF assms, of m] by simp
  have w: "?l + width ?c \<le> width img" and h: "?t + height ?c \<le> height img"
    using bbox_rows(3,4)[OF assms ne(1)] bbox_cols(3,4)[OF assms ne(2)]
    by (simp_all add: sub_image_def)
  have px: "\<forall>y<height ?c. \<forall>x<width ?c. pixels ?c ! y ! x = pixels img ! (?t + y) ! (?l + x)"
    by (simp add: sub_image_def)
  from w h have "width ?c \<le> width img" "height ?c \<le> height img"
    by linarith+
  with tr w h px show ?thesis by blast
qed

theorem trim_never_enlarges_witness:
  "wf_image block_image
   \<and> (\<exists>t ox oy. trim_transparent_edges RGBA block_image = Inr t
           \<and> width t \<le> width block_image \<and> height t \<le> height block_image
           \<and> ox + width t \<le> width block_image \<and> oy + height t \<le> height block_image
           \<and> (\<forall>y<height t. \<forall>x<width t.
                 pixels t ! y ! x = pixels block_image ! (oy + y) ! (ox + x)))"
proof -
  have wf: "wf_image block_image"
    by (simp add: wf_image_def block_image_def)
  from trim_never_enlarges[OF wf, of RGBA] wf show ?thesis by simp
qed

text \<open>
  C1. The claim is that an image with a visible pixel is cropped to the tightest box
  around its visible pixels. The test for a fully transparent image asks whether the
  arrays of row and column indices hold a nonzero index, so an image whose visible pixels
  all lie in row 0, or all in column 0, is returned uncropped: here the only visible
  pixel is at (0, 0), the tightest box is (0, 0, 1, 1), and the 2 by 2 image comes back
  unchanged.
\<close>

theorem trim_corner_image_not_cropped:
  "non_transparent_rows RGBA corner_image = [0]
   \<and> non_transparent_cols RGBA corner_image = [0]
   \<and> trim_transparent_edges RGBA corner_image = Inr corner_image
   \<and> crop RGBA corner_image (0, 0, 1, 1) = Inr \<lparr>width = 1, height = 1, pixels = [[solid_px]]\<rparr>
   \<and> width corner_image = 2 \<and> height corner_image = 2"
  by (simp add: trim_eval corner_image_def)




section \<open>The batch routine: properties\<close>

subsection \<open>Paths and folders\<close>

lemma join_inject [simp]: "join d n = join d' n' \<longleftrightarrow> d = d' \<and> n = n'"
  by (simp add: join_def)

lemma join_not_Nil [simp]: "join d n \<noteq> []" "butlast (join d n) = d" "last (join d n) = n"
  by (simp_all add: join_def)

lemma join_not_folder [simp]: "join d n \<noteq> d" "d \<noteq> join d n"
  by (simp_all add: join_def)

lemma prefix_join: "prefix p (join d n) \<longleftrightarrow> p = join d n \<or> prefix p d"
  by (auto simp: join_def)

lemma not_prefix_join_self [simp]: "\<not> prefix (join d n) d"
  by (auto simp: join_def prefix_def)

lemma entry_new_folders:
  "entry (fs @ map (\<lambda>q. (q, Dir)) qs) p =
     (case entry fs p of Some v \<Rightarrow> Some v | None \<Rightarrow> if p \<in> set qs then Some Dir else None)"
proof -
  have "map_of (map (\<lambda>q. (q, Dir :: 'a node)) qs) p = (if p \<in> set qs then Some Dir else None)"
    by (induction qs) auto
  then show ?thesis
    by (simp add: entry_def map_add_def split: option.splits)
qed

lemma children_append: "children (fs @ gs) d = children fs d @ children gs d"
  by (simp add: children_def)

lemma children_new_folders:
  "n \<in> set (children (map (\<lambda>q. (q, Dir)) qs) d) \<longleftrightarrow> join d n \<in> set qs"
proof
  assume "n \<in> set (children (map (\<lambda>q. (q, Dir)) qs) d)"
  then obtain q where q: "q \<in> set qs" "q \<noteq> []" "butlast q = d" "last q = n"
    by (auto simp: children_def)
  then have "q = join d n"
    unfolding join_def by (metis append_butlast_last_id)
  with q(1) show "join d n \<in> set qs" by simp
next
  assume "join d n \<in> set qs"
  then have "(join d n, Dir) \<in> set (map (\<lambda>q. (q, Dir)) qs)"
    by auto
  then show "n \<in> set (children (map (\<lambda>q. (q, Dir)) qs) d)"
    unfolding children_def by force
qed

lemma in_children: "n \<in> set (children fs d) \<longleftrightarrow> join d n \<in> fst ` set fs"
proof
  assume "n \<in> set (children fs d)"
  then obtain q v where q: "(q, v) \<in> set fs" "q \<noteq> []" "butlast q = d" "last q = n"
    by (auto simp: children_def)
  then have "q = join d n"
    unfolding join_def by (metis append_butlast_last_id)
  with q(1) show "join d n \<in> fst ` set fs" by force
next
  assume "join d n \<in> fst ` set fs"
  then obtain v where "(join d n, v) \<in> set fs" by auto
  then show "n \<in> set (children fs d)"
    unfolding children_def by force
qed

lemma in_children_exists: "n \<in> set (children fs d) \<longleftrightarrow> path_exists fs (join d n)"
  by (simp add: in_children path_exists_def entry_def map_of_eq_None_iff)

lemma missing_folders_sound:
  "q \<in> set (missing_folders fs p) \<Longrightarrow> prefix q p \<and> \<not> path_exists fs q"
  by (simp add: missing_folders_def in_set_prefixes)

subsection \<open>A folder is not moved into itself\<close>

lemma move_into_itself:
  assumes "entry fs src = Some Dir" "prefix src dst" "src \<noteq> dst"
  shows "move env fs src dst = Inl MoveError"
proof -
  have "prefix src (real_dst fs src dst)"
    using assms(2) by (simp add: real_dst_def prefix_prefix)
  then show ?thesis
    using assms(1,3) by (simp add: move_def)
qed

lemma process_file_into_itself:
  assumes "entry fs (join tf n) = Some Dir" "prefix (join tf n) bf"
  shows "process_file env tf bf tw th n fs = (fs, FileFailed n MoveError)"
proof -
  have "prefix (join tf n) (join bf n)"
    using assms(2) by (simp add: prefix_join)
  moreover have "join tf n \<noteq> join bf n"
    using assms(2) by auto
  ultimately have "move env fs (join tf n) (join bf n) = Inl MoveError"
    by (rule move_into_itself[OF assms(1)])
  then show ?thesis
    by (simp add: process_file_def Let_def)
qed

lemma process_files_into_itself:
  assumes "\<forall>n \<in> set names. entry fs (join tf n) = Some Dir \<and> prefix (join tf n) bf"
  shows "fst (process_files env tf bf tw th names fs) = fs"
  using assms
proof (induction names)
  case Nil
  then show ?case by simp
next
  case (Cons n names)
  then have "process_file env tf bf tw th n fs = (fs, FileFailed n MoveError)"
    by (simp add: process_file_into_itself)
  moreover have "fst (process_files env tf bf tw th names fs) = fs"
    using Cons by simp
  ultimately show ?case
    by (cases "process_files env tf bf tw th names fs") simp
qed

subsection \<open>The run as a whole\<close>

lemma isdir_new_folders: "isdir fs p \<Longrightarrow> isdir (fs @ map (\<lambda>q. (q, Dir)) qs) p"
  by (simp add: isdir_def entry_new_folders)

lemma makedirs_cases:
  obtains (failed) created where
      "makedirs env fs bf = (Inl MakedirsError, fs @ map (\<lambda>q. (q, Dir)) created)"
      "prefix created (butlast (missing_folders fs bf))"
  | (created) "makedirs env fs bf = (Inr (), fs @ map (\<lambda>q. (q, Dir)) (missing_folders fs bf))"
      "\<not> path_exists fs bf" "makedirs_refused env bf = None"
proof (cases "path_exists fs bf \<or> list_ex (isfile fs) (prefixes bf)")
  case True
  then have "makedirs env fs bf = (Inl MakedirsError, fs @ map (\<lambda>q. (q, Dir)) [])"
    by (simp add: makedirs_def)
  then show ?thesis
    by (rule failed) simp
next
  case False
  show ?thesis
  proof (cases "makedirs_refused env bf")
    case None
    with False show ?thesis
      by (intro created) (simp_all add: makedirs_def)
  next
    case (Some k)
    with False have
      "makedirs env fs bf =
         (Inl MakedirsError, fs @ map (\<lambda>q. (q, Dir)) (take k (butlast (missing_folders fs bf))))"
      by (simp add: makedirs_def)
    then show ?thesis
      by (rule failed) (rule take_is_prefix)
  qed
qed

lemma run_unfold:
  assumes "isdir fs tf"
  shows "resize_replace_and_backup env fs tf bf tw th =
     (if \<not> isdir fs bf \<and> fst (makedirs env fs bf) \<noteq> Inr ()
      then \<lparr>filesystem = snd (makedirs env fs bf), printed = [],
            uncaught = Some MakedirsError\<rparr>
      else if listdir_fails env tf
      then \<lparr>filesystem = with_backup_folder fs bf,
            printed = backup_notice fs bf @ [ListingFailed ListdirError], uncaught = None\<rparr>
      else if filter is_png (children (with_backup_folder fs bf) tf) = []
      then \<lparr>filesystem = with_backup_folder fs bf,
            printed = backup_notice fs bf @ [NoPngFiles tf], uncaught = None\<rparr>
      else \<lparr>filesystem =
              fst (process_files env tf bf tw th
                     (filter is_png (children (with_backup_folder fs bf) tf))
                     (with_backup_folder fs bf)),
            printed = backup_notice fs bf
                      @ [ProcessingCount
                           (length (filter is_png (children (with_backup_folder fs bf) tf)))]
                      @ snd (process_files env tf bf tw th
                               (filter is_png (children (with_backup_folder fs bf) tf))
                               (with_backup_folder fs bf))
                      @ [AllDone],
            uncaught = None\<rparr>)"
proof (cases "isdir fs bf")
  case True
  then show ?thesis
    using assms
    by (simp add: resize_replace_and_backup_def listdir_def with_backup_folder_def
        backup_notice_def Let_def split: prod.splits)
next
  case False
  show ?thesis
  proof (cases rule: makedirs_cases[of env fs bf])
    case (failed created)
    then show ?thesis
      using assms False by (simp add: resize_replace_and_backup_def)
  next
    case created
    have "isdir (fs @ map (\<lambda>q. (q, Dir)) (missing_folders fs bf)) tf"
      using assms by (rule isdir_new_folders)
    then show ?thesis
      using assms False created(1)
      by (simp add: resize_replace_and_backup_def listdir_def with_backup_folder_def
          backup_notice_def Let_def split: prod.splits)
  qed
qed

lemma new_png_entries:
  fixes fs :: "'a filesystem"
  assumes "filter is_png (children fs tf) = []" "\<not> isdir fs bf"
    and "n \<in> set (filter is_png (children (with_backup_folder fs bf) tf))"
  shows "is_png n \<and> prefix (join tf n) bf \<and> entry (with_backup_folder fs bf) (join tf n) = Some Dir"
proof -
  have "children (with_backup_folder fs bf) tf =
          children fs tf @ children (map (\<lambda>q. (q, Dir :: 'a node)) (missing_folders fs bf)) tf"
    using assms(2) by (simp add: with_backup_folder_def children_append)
  with assms(3) have png: "is_png n"
    and "n \<in> set (children fs tf)
         \<or> n \<in> set (children (map (\<lambda>q. (q, Dir :: 'a node)) (missing_folders fs bf)) tf)"
    by auto
  moreover have "n \<notin> set (children fs tf)"
    using assms(1) png by (auto simp: filter_empty_conv)
  ultimately have new: "join tf n \<in> set (missing_folders fs bf)"
    by (simp add: children_new_folders)
  then have "prefix (join tf n) bf" "entry fs (join tf n) = None"
    using missing_folders_sound[OF new] by (simp_all add: path_exists_def)
  then show ?thesis
    using png new assms(2) by (simp add: with_backup_folder_def entry_new_folders)
qed

lemma is_png_examples:
  "is_png ''a.png''" "is_png ''b.png''" "\<not> is_png ''notes.txt''" "is_png ''C.PNG''"
  "is_png ''old.png''"
  by code_simp+

subsection \<open>Claims about the start of a run\<close>

text \<open>
  C9. When the source folder does not exist, the routine reports the error and returns at
  once: the file system is as it was, so the backup folder is not created and no file is
  moved or written, and nothing else is printed.
\<close>

theorem missing_target_folder_returns_early:
  assumes "\<not> isdir fs tf"
  shows "resize_replace_and_backup env fs tf bf tw th =
           \<lparr>filesystem = fs, printed = [TargetFolderNotFound tf], uncaught = None\<rparr>"
  using assms by (simp add: resize_replace_and_backup_def)

theorem missing_target_folder_returns_early_witness:
  "\<not> isdir other_fs [''original_pngs'']
   \<and> \<not> isdir other_fs [''used_pngs'']
   \<and> resize_replace_and_backup example_env other_fs [''original_pngs''] [''used_pngs''] 2 1 =
       \<lparr>filesystem = other_fs, printed = [TargetFolderNotFound [''original_pngs'']],
        uncaught = None\<rparr>"
proof -
  have h: "\<not> isdir other_fs [''original_pngs'']"
    by (simp add: isdir_def entry_def other_fs_def)
  have "\<not> isdir other_fs [''used_pngs'']"
    by (simp add: isdir_def entry_def other_fs_def)
  with h missing_target_folder_returns_early[OF h, of example_env "[''used_pngs'']" 2 1]
  show ?thesis by simp
qed

text \<open>
  C8. The claim is that a source folder without PNG files leaves the file system
  untouched. The backup folder is created before the source folder is listed, so a run
  on a source folder that holds only \<^verbatim>\<open>notes.txt\<close>, with no backup folder yet, creates
  the backup folder.
\<close>

theorem no_png_files_creates_backup_folder:
  "isdir notes_fs [''original_pngs'']
   \<and> children notes_fs [''original_pngs''] = [''notes.txt'']
   \<and> filter is_png (children notes_fs [''original_pngs'']) = []
   \<and> \<not> path_exists notes_fs [''used_pngs'']
   \<and> isdir (filesystem (resize_replace_and_backup example_env notes_fs
                [''original_pngs''] [''used_pngs''] 2 1)) [''used_pngs'']
   \<and> filesystem (resize_replace_and_backup example_env notes_fs
                [''original_pngs''] [''used_pngs''] 2 1) \<noteq> notes_fs"
proof -
  have ch: "children notes_fs [''original_pngs''] = [''notes.txt'']"
    by (simp add: children_def notes_fs_def)
  have run: "filesystem (resize_replace_and_backup example_env notes_fs
                [''original_pngs''] [''used_pngs''] 2 1) = notes_fs @ [([''used_pngs''], Dir)]"
    by (simp add: resize_replace_and_backup_def isdir_def isfile_def path_exists_def entry_def
        makedirs_def missing_folders_def listdir_def children_def is_png_examples
        notes_fs_def example_env_def)
  show ?thesis
    unfolding run ch
    by (simp add: is_png_examples isdir_def path_exists_def entry_def notes_fs_def)
qed

text \<open>
  C8, amended. When the source folder holds no entry that ends in \<^verbatim>\<open>.png\<close>, the routine
  moves and writes no file: the file system it leaves is the one it found, with at most
  the missing folders on the way to the backup folder added, and with nothing added when
  the backup folder was there. When moreover the backup folder is there or can be
  created, and is not created inside the source folder below a name that ends in
  \<^verbatim>\<open>.png\<close>, and the system does not refuse the listing, the routine creates the backup
  folder if it is missing, prints that there is nothing to process after the notice of
  that creation, and returns.
\<close>

theorem no_png_files_moves_nothing:
  assumes "isdir fs tf" "filter is_png (children fs tf) = []"
  shows "(\<exists>created. prefix created (missing_folders fs bf)
            \<and> (isdir fs bf \<longrightarrow> created = [])
            \<and> filesystem (resize_replace_and_backup env fs tf bf tw th) =
                fs @ map (\<lambda>q. (q, Dir)) created)
         \<and> ((isdir fs bf
               \<or> (fst (makedirs env fs bf) = Inr ()
                   \<and> \<not> (\<exists>c. is_png c \<and> prefix (join tf c) bf)))
              \<and> \<not> listdir_fails env tf
            \<longrightarrow> resize_replace_and_backup env fs tf bf tw th =
                  \<lparr>filesystem = with_backup_folder fs bf,
                   printed = backup_notice fs bf @ [NoPngFiles tf], uncaught = None\<rparr>)"
proof (cases "isdir fs bf")
  case True
  then have same: "with_backup_folder fs bf = fs"
    by (simp add: with_backup_folder_def)
  have "filesystem (resize_replace_and_backup env fs tf bf tw th) = fs @ map (\<lambda>q. (q, Dir)) []"
    using True assms(2) by (simp add: run_unfold[OF assms(1)] same)
  moreover have "\<not> listdir_fails env tf \<longrightarrow>
      resize_replace_and_backup env fs tf bf tw th =
        \<lparr>filesystem = with_backup_folder fs bf,
         printed = backup_notice fs bf @ [NoPngFiles tf], uncaught = None\<rparr>"
    using True assms(2) by (simp add: run_unfold[OF assms(1)] same)
  ultimately show ?thesis
    using True by (metis Nil_prefix)
next
  case False
  let ?names = "filter is_png (children (with_backup_folder fs bf) tf)"
  have kept: "fst (process_files env tf bf tw th ?names (with_backup_folder fs bf)) =
                with_backup_folder fs bf"
    using new_png_entries[OF assms(2) False] by (intro process_files_into_itself) blast
  have none: "?names = []" if "\<not> (\<exists>c. is_png c \<and> prefix (join tf c) bf)"
  proof (rule ccontr)
    assume "?names \<noteq> []"
    then obtain n where "n \<in> set ?names"
      by (meson last_in_set)
    from new_png_entries[OF assms(2) False this] that show False by blast
  qed
  show ?thesis
  proof (cases rule: makedirs_cases[of env fs bf])
    case (failed created)
    have "prefix created (missing_folders fs bf)"
      using failed(2) prefixeq_butlast prefix_order.trans by blast
    moreover have "filesystem (resize_replace_and_backup env fs tf bf tw th) =
                     fs @ map (\<lambda>q. (q, Dir)) created"
      using False failed(1) by (simp add: run_unfold[OF assms(1)])
    moreover have "fst (makedirs env fs bf) \<noteq> Inr ()"
      using failed(1) by simp
    ultimately show ?thesis
      using False by blast
  next
    case created
    have fs1: "with_backup_folder fs bf = fs @ map (\<lambda>q. (q, Dir)) (missing_folders fs bf)"
      using False by (simp add: with_backup_folder_def)
    have "filesystem (resize_replace_and_backup env fs tf bf tw th) = with_backup_folder fs bf"
      using created(1) kept by (simp add: run_unfold[OF assms(1)])
    then have 1: "filesystem (resize_replace_and_backup env fs tf bf tw th) =
                    fs @ map (\<lambda>q. (q, Dir)) (missing_folders fs bf)"
      by (simp add: fs1)
    have 2: "resize_replace_and_backup env fs tf bf tw th =
               \<lparr>filesystem = with_backup_folder fs bf,
                printed = backup_notice fs bf @ [NoPngFiles tf], uncaught = None\<rparr>"
      if "\<not> (\<exists>c. is_png c \<and> prefix (join tf c) bf)" "\<not> listdir_fails env tf"
      using created(1) none[OF that(1)] that(2) by (simp add: run_unfold[OF assms(1)])
    from 1 2 False show ?thesis
      by (metis prefix_order.order_refl)
  qed
qed

theorem no_png_files_moves_nothing_witness:
  "isdir notes_fs [''original_pngs'']
   \<and> children notes_fs [''original_pngs''] = [''notes.txt'']
   \<and> resize_replace_and_backup example_env notes_fs [''original_pngs''] [''used_pngs''] 2 1 =
       \<lparr>filesystem = notes_fs @ [([''used_pngs''], Dir)],
        printed = [BackupFolderCreated [''used_pngs''], NoPngFiles [''original_pngs'']],
        uncaught = None\<rparr>"
proof -
  have 1: "isdir notes_fs [''original_pngs'']"
    by (simp add: isdir_def entry_def notes_fs_def)
  have ch: "children notes_fs [''original_pngs''] = [''notes.txt'']"
    by (simp add: children_def notes_fs_def)
  have 2: "filter is_png (children notes_fs [''original_pngs'']) = []"
    by (simp add: ch is_png_examples)
  have nb: "\<not> isdir notes_fs [''used_pngs'']"
    by (simp add: isdir_def entry_def notes_fs_def)
  have mf: "missing_folders notes_fs [''used_pngs''] = [[''used_pngs'']]"
    by (simp add: missing_folders_def path_exists_def entry_def notes_fs_def)
  have 3: "fst (makedirs example_env notes_fs [''used_pngs'']) = Inr ()"
    by (simp add: makedirs_def path_exists_def isfile_def entry_def notes_fs_def example_env_def)
  have 4: "\<not> (\<exists>c. is_png c \<and> prefix (join [''original_pngs''] c) [''used_pngs''])"
    by (simp add: join_def)
  have 5: "\<not> listdir_fails example_env [''original_pngs'']"
    by (simp add: example_env_def)
  from no_png_files_moves_nothing[OF 1 2, of "[''used_pngs'']" example_env 2 1] 3 4 5
  have "resize_replace_and_backup example_env notes_fs [''original_pngs''] [''used_pngs''] 2 1 =
          \<lparr>filesystem = with_backup_folder notes_fs [''used_pngs''],
           printed = backup_notice notes_fs [''used_pngs''] @ [NoPngFiles [''original_pngs'']],
           uncaught = None\<rparr>"
    by blast
  then show ?thesis
    using 1 ch nb by (simp add: with_backup_folder_def backup_notice_def mf)
qed

text \<open>
  A backup folder created inside the source folder is an entry of the source folder when
  the listing is taken. Under a name that ends in \<^verbatim>\<open>.png\<close> it is taken for a file to
  process; the move of the folder into itself raises, and the file system stays as it
  was after the creation.
\<close>

lemma nested_backup_folder_is_listed:
  "resize_replace_and_backup example_env notes_fs [''original_pngs'']
       [''original_pngs'', ''old.png''] 2 1 =
     \<lparr>filesystem = notes_fs @ [([''original_pngs'', ''old.png''], Dir)],
      printed = [BackupFolderCreated [''original_pngs'', ''old.png''], ProcessingCount 1,
                 FileFailed ''old.png'' MoveError, AllDone],
      uncaught = None\<rparr>"
  by (simp add: resize_replace_and_backup_def isdir_def isfile_def path_exists_def entry_def
      makedirs_def missing_folders_def listdir_def children_def is_png_examples
      process_file_def move_def real_dst_def join_def notes_fs_def example_env_def)

subsection \<open>The library calls, seen from one path\<close>

lemma entry_update: "k \<noteq> [] \<Longrightarrow> entry (AList.update k v fs) p = (if p = k then Some v else entry fs p)"
  by (simp add: entry_def update_conv')

lemma entry_delete: "entry (AList.delete k fs) p = (if p = k \<and> p \<noteq> [] then None else entry fs p)"
  by (simp add: entry_def delete_conv')

lemma map_of_relocate_other:
  "\<not> prefix src p \<Longrightarrow> \<not> prefix dst p \<Longrightarrow> map_of (relocate src dst fs) p = map_of fs p"
  by (induction fs) (auto simp: relocate_def)

lemma map_of_relocate_src:
  "\<not> prefix dst src \<Longrightarrow> map_of (relocate src dst fs) src = None"
proof (induction fs)
  case Nil
  then show ?case by (simp add: relocate_def)
next
  case (Cons e fs)
  obtain q v where e: "e = (q, v)" by (cases e)
  have "src \<noteq> dst @ r" for r
    using Cons.prems by (auto simp: prefix_def)
  moreover have "q \<noteq> src" if "\<not> prefix src q"
    using that by auto
  ultimately show ?case
    using Cons e unfolding relocate_def by auto
qed

lemma map_of_relocate_dst:
  "map_of fs dst = None \<Longrightarrow> map_of (relocate src dst fs) dst = map_of fs src"
proof (induction fs)
  case Nil
  then show ?case by (simp add: relocate_def)
next
  case (Cons e fs)
  obtain q v where e: "e = (q, v)" by (cases e)
  have IH: "map_of (relocate src dst fs) dst = map_of fs src"
    using Cons e by (simp split: if_splits)
  have q: "q \<noteq> dst"
    using Cons.prems e by (auto split: if_splits)
  show ?case
  proof (cases "prefix src q")
    case True
    then obtain r where r: "q = src @ r" by (auto simp: prefix_def)
    show ?thesis
      using IH r e unfolding relocate_def by auto
  next
    case False
    then have "q \<noteq> src" by auto
    with False q IH e show ?thesis
      unfolding relocate_def by auto
  qed
qed

lemma entry_relocate_other:
  "\<not> prefix src p \<Longrightarrow> \<not> prefix dst p \<Longrightarrow> entry (relocate src dst fs) p = entry fs p"
  by (simp add: entry_def map_of_relocate_other)

lemma entry_relocate_src:
  "src \<noteq> [] \<Longrightarrow> \<not> prefix dst src \<Longrightarrow> entry (relocate src dst fs) src = None"
  by (simp add: entry_def map_of_relocate_src)

lemma entry_relocate_dst:
  "src \<noteq> [] \<Longrightarrow> \<not> path_exists fs dst \<Longrightarrow> entry (relocate src dst fs) dst = entry fs src"
  by (auto simp: entry_def path_exists_def map_of_relocate_dst split: if_splits)

text \<open>The ways in which \<^verbatim>\<open>shutil.move\<close> succeeds.\<close>

lemma move_error: "move env fs src dst = Inl e \<Longrightarrow> e = MoveError"
  by (auto simp: move_def split: option.splits if_splits node.splits)

lemma move_cases:
  assumes "move env fs src dst = Inr fs1"
  obtains
    (same_path) "src = dst" "fs1 = fs"
  | (a_file) content where
      "src \<noteq> dst" "src \<noteq> []" "entry fs src = Some (File content)"
      "fs1 = AList.update (real_dst fs src dst) (File content) (AList.delete src fs)"
      "\<not> isdir fs (real_dst fs src dst)" "isdir fs (butlast (real_dst fs src dst))"
      "real_dst fs src dst \<noteq> src" "real_dst fs src dst \<noteq> []"
  | (a_folder)
      "src \<noteq> dst" "src \<noteq> []" "entry fs src = Some Dir"
      "fs1 = relocate src (real_dst fs src dst) fs"
      "\<not> prefix src (real_dst fs src dst)" "\<not> path_exists fs (real_dst fs src dst)"
      "isdir fs (butlast (real_dst fs src dst))"
      "real_dst fs src dst \<noteq> src" "real_dst fs src dst \<noteq> []"
proof (cases "src = dst")
  case True
  with assms have "fs1 = fs"
    by (auto simp: move_def split: option.splits if_splits)
  with True show ?thesis by (rule same_path)
next
  case False
  from assms obtain node where node: "entry fs src = Some node"
    by (auto simp: move_def split: option.splits)
  from assms node False have ok: "src \<noteq> []" "\<not> move_fails env src dst"
    "\<not> (isdir fs dst \<and> path_exists fs (real_dst fs src dst))"
    "isdir fs (butlast (real_dst fs src dst))"
    by (auto simp: move_def split: if_splits)
  have "path_exists fs src"
    using node by (simp add: path_exists_def)
  with ok(3) False have rd: "real_dst fs src dst \<noteq> src"
    by (auto simp: real_dst_def)
  have rd': "real_dst fs src dst \<noteq> []"
    using ok(1) False by (auto simp: real_dst_def isdir_def entry_def)
  show ?thesis
  proof (cases node)
    case (File content)
    with assms node False ok
    have "fs1 = AList.update (real_dst fs src dst) (File content) (AList.delete src fs)"
      by (auto simp: move_def)
    moreover have "\<not> isdir fs (real_dst fs src dst)"
      using ok(3) by (auto simp: real_dst_def isdir_def path_exists_def)
    ultimately show ?thesis
      using False ok node File rd rd' by (intro a_file[of content]) simp_all
  next
    case Dir
    with assms node False ok
    have "\<not> prefix src (real_dst fs src dst)" "\<not> path_exists fs (real_dst fs src dst)"
      "fs1 = relocate src (real_dst fs src dst) fs"
      by (auto simp: move_def split: if_splits)
    then show ?thesis
      using False ok node Dir rd rd' by (intro a_folder) simp_all
  qed
qed

lemma image_open_error: "image_open env fs p = Inl e \<Longrightarrow> e = OpenError"
  by (auto simp: image_open_def split: option.splits node.splits)


lemma resize_error: "resize env img wh = Inl e \<Longrightarrow> e = ResizeError"
  by (auto simp: resize_def split: prod.splits if_splits)

lemma trim_error: "trim_transparent_edges m img = Inl e \<Longrightarrow> e = IndexError \<or> e = CropError"
  by (auto simp: trim_transparent_edges_def Let_def crop_def
      split: if_splits list.splits prod.splits)

lemma resize_size:
  "resize env img (w, h) = Inr r \<Longrightarrow> int (width r) = w \<and> int (height r) = h \<and> wf_image r"
  by (auto simp: resize_def wf_image_def list_all_iff split: if_splits)

text \<open>The ways in which \<^verbatim>\<open>save\<close> ends.\<close>

lemma save_cases:
  obtains
    (refused) "save env fs p img = (Inl SaveError, fs)"
  | (partial) content where
      "p \<noteq> []" "isdir fs (butlast p)" "\<not> isdir fs p"
      "save env fs p img = (Inl SaveError, AList.update p (File content) fs)"
  | (saved)
      "p \<noteq> []" "isdir fs (butlast p)" "\<not> isdir fs p"
      "save env fs p img = (Inr (), AList.update p (File (encode env img)) fs)"
proof (cases "p = [] \<or> lower (splitext_ext (last p)) \<noteq> ''.png''
              \<or> \<not> isdir fs (butlast p) \<or> isdir fs p")
  case True
  then have "save env fs p img = (Inl SaveError, fs)"
    by (auto simp: save_def)
  then show ?thesis by (rule refused)
next
  case False
  show ?thesis
  proof (cases "save_outcome env p img")
    case Saved
    with False show ?thesis
      by (intro saved) (auto simp: save_def)
  next
    case (SaveFailed left)
    show ?thesis
    proof (cases left)
      case None
      with False SaveFailed have "save env fs p img = (Inl SaveError, fs)"
        by (auto simp: save_def)
      then show ?thesis by (rule refused)
    next
      case (Some content)
      with False SaveFailed show ?thesis
        by (intro partial[of content]) (auto simp: save_def)
    qed
  qed
qed

text \<open>The six ways through the body of the loop.\<close>

lemma process_file_cases:
  obtains
    (move_failed)
      "move env fs (join tf n) (join bf n) = Inl MoveError"
      "process_file env tf bf tw th n fs = (fs, FileFailed n MoveError)"
  | (open_failed) fs1 where
      "move env fs (join tf n) (join bf n) = Inr fs1"
      "image_open env fs1 (join bf n) = Inl OpenError"
      "process_file env tf bf tw th n fs = (fs1, FileFailed n OpenError)"
  | (trim_failed) fs1 img e where
      "move env fs (join tf n) (join bf n) = Inr fs1"
      "image_open env fs1 (join bf n) = Inr img"
      "trim_transparent_edges (mode env) img = Inl e" "e = IndexError \<or> e = CropError"
      "process_file env tf bf tw th n fs = (fs1, FileFailed n e)"
  | (resize_failed) fs1 img trimmed where
      "move env fs (join tf n) (join bf n) = Inr fs1"
      "image_open env fs1 (join bf n) = Inr img"
      "trim_transparent_edges (mode env) img = Inr trimmed"
      "resize env trimmed (tw, th) = Inl ResizeError"
      "process_file env tf bf tw th n fs = (fs1, FileFailed n ResizeError)"
  | (save_failed) fs1 img trimmed resized fs2 where
      "move env fs (join tf n) (join bf n) = Inr fs1"
      "image_open env fs1 (join bf n) = Inr img"
      "trim_transparent_edges (mode env) img = Inr trimmed"
      "resize env trimmed (tw, th) = Inr resized"
      "save env fs1 (join tf n) resized = (Inl SaveError, fs2)"
      "process_file env tf bf tw th n fs = (fs2, FileFailed n SaveError)"
  | (succeeded) fs1 img trimmed resized fs2 where
      "move env fs (join tf n) (join bf n) = Inr fs1"
      "image_open env fs1 (join bf n) = Inr img"
      "trim_transparent_edges (mode env) img = Inr trimmed"
      "resize env trimmed (tw, th) = Inr resized"
      "save env fs1 (join tf n) resized = (Inr (), fs2)"
      "process_file env tf bf tw th n fs = (fs2, FileDone n)"
proof (cases "move env fs (join tf n) (join bf n)")
  case (Inl e)
  then have "e = MoveError" by (rule move_error)
  with Inl show ?thesis
    by (intro move_failed) (simp_all add: process_file_def)
next
  case mv: (Inr fs1)
  show ?thesis
  proof (cases "image_open env fs1 (join bf n)")
    case (Inl e)
    then have "e = OpenError" by (rule image_open_error)
    with Inl mv show ?thesis
      by (intro open_failed[of fs1]) (simp_all add: process_file_def)
  next
    case op: (Inr img)
    show ?thesis
    proof (cases "trim_transparent_edges (mode env) img")
      case (Inl e)
      then have "e = IndexError \<or> e = CropError" by (rule trim_error)
      with Inl mv op show ?thesis
        by (intro trim_failed[of fs1 img e]) (simp_all add: process_file_def)
    next
      case tr: (Inr trimmed)
      show ?thesis
      proof (cases "resize env trimmed (tw, th)")
        case (Inl e)
        then have "e = ResizeError" by (rule resize_error)
        with Inl mv op tr show ?thesis
          by (intro resize_failed[of fs1 img trimmed]) (simp_all add: process_file_def)
      next
        case rs: (Inr resized)
        show ?thesis
        proof (cases rule: save_cases[of env fs1 "join tf n" resized])
          case refused
          with mv op tr rs show ?thesis
            by (intro save_failed[of fs1 img trimmed resized fs1]) (simp_all add: process_file_def)
        next
          case (partial content)
          with mv op tr rs show ?thesis
            by (intro save_failed[of fs1 img trimmed resized
                  "AList.update (join tf n) (File content) fs1"])
               (simp_all add: process_file_def)
        next
          case saved
          with mv op tr rs show ?thesis
            by (intro succeeded[of fs1 img trimmed resized
                  "AList.update (join tf n) (File (encode env resized)) fs1"])
               (simp_all add: process_file_def)
        qed
      qed
    qed
  qed
qed

subsection \<open>One file\<close>


lemma save_entry_other:
  assumes "save env fs p img = (res, fs2)" "q \<noteq> p"
  shows "entry fs2 q = entry fs q"
  using assms by (cases rule: save_cases[of env fs p img]) (auto simp: entry_update)

lemma save_entry:
  assumes "save env fs p img = (res, fs2)"
  shows "(res = Inr () \<and> entry fs2 p = Some (File (encode env img)))
         \<or> (res = Inl SaveError
             \<and> (fs2 = fs \<or> (\<exists>content. entry fs2 p = Some (File content))))"
  using assms by (cases rule: save_cases[of env fs p img]) (auto simp: entry_update)

lemma process_file_line:
  "snd (process_file env tf bf tw th n fs) = FileDone n
   \<or> (\<exists>e. snd (process_file env tf bf tw th n fs) = FileFailed n e)"
  by (cases rule: process_file_cases[of env fs tf n bf tw th]) simp_all

text \<open>A file that is reported as done has been written with the size asked for.\<close>

lemma process_file_done:
  assumes "snd (process_file env tf bf tw th n fs) = FileDone n"
  shows "\<exists>resized. entry (fst (process_file env tf bf tw th n fs)) (join tf n)
                      = Some (File (encode env resized))
           \<and> int (width resized) = tw \<and> int (height resized) = th \<and> wf_image resized"
proof (cases rule: process_file_cases[of env fs tf n bf tw th])
  case (succeeded fs1 img trimmed resized fs2)
  have "entry fs2 (join tf n) = Some (File (encode env resized))"
    using save_entry[OF succeeded(5)] by simp
  with succeeded(6) resize_size[OF succeeded(4)] show ?thesis
    by auto
qed (use assms in simp_all)

lemma extension_examples:
  "lower (splitext_ext ''a.png'') = ''.png''" "lower (splitext_ext ''b.png'') = ''.png''"
  "lower (splitext_ext ''C.PNG'') = ''.png''" "lower (splitext_ext ''.png'') = []"
  by code_simp+

lemmas fs_eval =
  process_file_def move_def real_dst_def image_open_def resize_def save_def extension_examples
  join_def entry_def isdir_def path_exists_def example_env_def nearest_def Let_def

subsection \<open>Claims about one file\<close>







subsection \<open>One file among the others\<close>

lemma folders_exist_iff: "folders_exist fs p \<longleftrightarrow> (\<forall>q. prefix q p \<longrightarrow> isdir fs q)"
  by (auto simp: folders_exist_def list_all_iff in_set_prefixes)

lemma folders_exist_isdir: "folders_exist fs p \<Longrightarrow> isdir fs p"
  by (simp add: folders_exist_iff)

lemma real_dst_cases:
  "real_dst fs (join tf m) (join bf m) = join bf m
   \<or> real_dst fs (join tf m) (join bf m) = join (join bf m) m"
  by (simp add: real_dst_def join_def)

text \<open>
  What the processing of a file leaves alone: a path that is neither the source path nor,
  unless it is a folder, the backup path or the path inside a folder at the backup path,
  and that lies below them only where a folder cannot be moved.
\<close>

lemma process_file_keeps:
  assumes inv: "folders_exist fs tf"
    and h1: "p \<noteq> join tf m"
    and h2: "isdir fs p \<or> (p \<noteq> join bf m \<and> p \<noteq> join (join bf m) m)"
    and h3: "prefix (join tf m) p \<longrightarrow> prefix (join tf m) bf"
    and h4: "prefix (join bf m) p \<longrightarrow> prefix (join bf m) tf"
    and h5: "prefix (join (join bf m) m) p \<longrightarrow> prefix (join (join bf m) m) tf"
  shows "entry (fst (process_file env tf bf tw th m fs)) p = entry fs p"
proof -
  let ?rd = "real_dst fs (join tf m) (join bf m)"
  have moved: "entry fs1 p = entry fs p" if mv: "move env fs (join tf m) (join bf m) = Inr fs1" for fs1
    using mv
  proof (cases rule: move_cases)
    case same_path
    then show ?thesis by simp
  next
    case (a_file content)
    have "p \<noteq> ?rd"
      using a_file(5) h2 real_dst_cases[of fs tf m bf] by auto
    then show ?thesis
      using h1 a_file(8) unfolding a_file(4) by (simp add: entry_update entry_delete)
  next
    case a_folder
    have "\<not> prefix (join tf m) p"
    proof
      assume "prefix (join tf m) p"
      with h3 have "prefix (join tf m) bf" by simp
      then have "prefix (join tf m) ?rd"
        using real_dst_cases[of fs tf m bf] by (auto simp: prefix_join)
      with a_folder(5) show False by simp
    qed
    moreover have "\<not> prefix ?rd p"
    proof
      assume "prefix ?rd p"
      with h4 h5 have "prefix ?rd tf"
        using real_dst_cases[of fs tf m bf] by auto
      with inv have "isdir fs ?rd"
        by (simp add: folders_exist_iff)
      with a_folder(6) show False
        by (simp add: isdir_def path_exists_def)
    qed
    ultimately show ?thesis
      unfolding a_folder(4) by (rule entry_relocate_other)
  qed
  have saved: "entry fs2 p = entry fs1 p" if "save env fs1 (join tf m) img = (res, fs2)"
    for fs1 fs2 img res
    using that h1 by (rule save_entry_other)
  show ?thesis
  proof (cases rule: process_file_cases[of env fs tf m bf tw th])
    case move_failed
    then show ?thesis by simp
  next
    case (open_failed fs1)
    then show ?thesis using moved by simp
  next
    case (trim_failed fs1 img e)
    then show ?thesis using moved by simp
  next
    case (resize_failed fs1 img trimmed)
    then show ?thesis using moved by simp
  next
    case (save_failed fs1 img trimmed resized fs2)
    then show ?thesis using moved saved by simp
  next
    case (succeeded fs1 img trimmed resized fs2)
    then show ?thesis using moved saved by simp
  qed
qed

lemma process_file_keeps_folders:
  assumes "folders_exist fs tf" "isdir fs bf"
  shows "folders_exist (fst (process_file env tf bf tw th m fs)) tf"
    and "isdir (fst (process_file env tf bf tw th m fs)) bf"
proof -
  have "entry (fst (process_file env tf bf tw th m fs)) q = entry fs q" if "prefix q tf" for q
  proof (rule process_file_keeps[OF assms(1)])
    show "q \<noteq> join tf m"
      using that by (auto simp: join_def prefix_def)
    show "isdir fs q \<or> (q \<noteq> join bf m \<and> q \<noteq> join (join bf m) m)"
      using that assms(1) by (simp add: folders_exist_iff)
    show "prefix (join tf m) q \<longrightarrow> prefix (join tf m) bf"
      using that by (auto simp: join_def prefix_def)
    show "prefix (join bf m) q \<longrightarrow> prefix (join bf m) tf"
      using that by (meson prefix_order.order_trans)
    show "prefix (join (join bf m) m) q \<longrightarrow> prefix (join (join bf m) m) tf"
      using that by (meson prefix_order.order_trans)
  qed
  then show "folders_exist (fst (process_file env tf bf tw th m fs)) tf"
    using assms(1) by (simp add: folders_exist_iff isdir_def)
  have "entry (fst (process_file env tf bf tw th m fs)) bf = entry fs bf"
  proof (cases "bf = join tf m")
    case True
    then have "entry fs (join tf m) = Some Dir" "prefix (join tf m) bf"
      using assms(2) by (simp_all add: isdir_def)
    then show ?thesis
      by (simp add: process_file_into_itself)
  next
    case False
    show ?thesis
    proof (rule process_file_keeps[OF assms(1)])
      show "bf \<noteq> join tf m"
        by (rule False)
      show "isdir fs bf \<or> (bf \<noteq> join bf m \<and> bf \<noteq> join (join bf m) m)"
        using assms(2) by simp
      show "prefix (join tf m) bf \<longrightarrow> prefix (join tf m) bf"
        by simp
      show "prefix (join bf m) bf \<longrightarrow> prefix (join bf m) tf"
        by simp
      show "prefix (join (join bf m) m) bf \<longrightarrow> prefix (join (join bf m) m) tf"
        by (auto simp: join_def prefix_def)
    qed
  qed
  then show "isdir (fst (process_file env tf bf tw th m fs)) bf"
    using assms(2) by (simp add: isdir_def)
qed

lemma not_prefix_join_join [simp]: "\<not> prefix (join (join d m) m') d" "\<not> prefix (join (join d m) m') (join d n)"
  using prefix_length_le by (fastforce simp: join_def)+

lemma join_join_neq [simp]: "join (join d m) m' \<noteq> join d n" "join d n \<noteq> join (join d m) m'"
  by (auto simp: join_def)

text \<open>Processing a file leaves alone what the processing of another name reads.\<close>

lemma process_file_other:
  assumes "n \<noteq> m" "folders_exist fs tf" "isdir fs bf"
  shows "same_slot tf bf fs (fst (process_file env tf bf tw th m fs)) n"
proof -
  let ?fs' = "fst (process_file env tf bf tw th m fs)"
  have "isdir ?fs' tf"
    using process_file_keeps_folders(1)[OF assms(2,3), of env tw th m]
    by (rule folders_exist_isdir)
  moreover have "isdir ?fs' bf"
    by (rule process_file_keeps_folders(2)[OF assms(2,3)])
  ultimately have "isdir ?fs' tf" "isdir ?fs' bf"
    by simp_all
  then have 1: "entry fs tf = entry ?fs' tf" "entry fs bf = entry ?fs' bf"
    using assms(2,3) folders_exist_isdir[of fs tf] by (simp_all add: isdir_def)
  have 2: "entry ?fs' (join tf n) = entry fs (join tf n)"
    using assms(1) by (intro process_file_keeps[OF assms(2)]) (auto simp: prefix_join)
  have 3: "entry ?fs' (join bf n) = entry fs (join bf n)"
    using assms(1) by (intro process_file_keeps[OF assms(2)]) (auto simp: prefix_join)
  have 4: "entry ?fs' (join (join bf n) n) = entry fs (join (join bf n) n)"
    using assms(1) by (intro process_file_keeps[OF assms(2)]) (auto simp: prefix_join)
  from 1 2 3 4 show ?thesis
    by (simp add: same_slot_def)
qed

text \<open>What happens to a file depends only on what its processing reads.\<close>

lemma move_fails_iff:
  "(\<exists>e. move env fs src dst = Inl e) \<longleftrightarrow>
     entry fs src = None \<or> src = [] \<or> move_fails env src dst
     \<or> (src \<noteq> dst
         \<and> ((isdir fs dst \<and> path_exists fs (real_dst fs src dst))
             \<or> \<not> isdir fs (butlast (real_dst fs src dst))
             \<or> (entry fs src = Some Dir
                 \<and> (prefix src (real_dst fs src dst) \<or> path_exists fs (real_dst fs src dst)))))"
  by (auto simp: move_def split: option.splits node.splits)

lemma same_slot_real_dst:
  assumes "same_slot tf bf fs gs n"
  shows "real_dst fs (join tf n) (join bf n) = real_dst gs (join tf n) (join bf n)"
    and "entry fs (real_dst fs (join tf n) (join bf n)) = entry gs (real_dst fs (join tf n) (join bf n))"
    and "entry fs (butlast (real_dst fs (join tf n) (join bf n)))
         = entry gs (butlast (real_dst fs (join tf n) (join bf n)))"
  using assms by (auto simp: same_slot_def real_dst_def isdir_def join_def butlast_append)

lemma move_fails_same_slot:
  assumes "same_slot tf bf fs gs n"
  shows "(\<exists>e. move env fs (join tf n) (join bf n) = Inl e)
         \<longleftrightarrow> (\<exists>e. move env gs (join tf n) (join bf n) = Inl e)"
proof -
  have "entry fs (join tf n) = entry gs (join tf n)" "entry fs (join bf n) = entry gs (join bf n)"
    using assms by (simp_all add: same_slot_def)
  then show ?thesis
    unfolding move_fails_iff isdir_def path_exists_def
    using same_slot_real_dst[OF assms] by simp
qed

lemma move_result:
  assumes "move env fs (join tf n) (join bf n) = Inr fs1" "folders_exist fs tf"
  shows "entry fs1 (join tf n) = (if tf = bf then entry fs (join tf n) else None)"
    and "entry fs1 (join bf n) = (if isdir fs (join bf n) then Some Dir else entry fs (join tf n))"
    and "entry fs1 tf = entry fs tf"
  using assms(1)
proof (atomize (full), cases rule: move_cases)
  case same_path
  then show "entry fs1 (join tf n) = (if tf = bf then entry fs (join tf n) else None)
      \<and> entry fs1 (join bf n) = (if isdir fs (join bf n) then Some Dir else entry fs (join tf n))
      \<and> entry fs1 tf = entry fs tf"
    by (auto simp: isdir_def)
next
  case (a_file content)
  let ?rd = "real_dst fs (join tf n) (join bf n)"
  have tf: "isdir fs tf"
    using assms(2) by (rule folders_exist_isdir)
  have "tf \<noteq> ?rd"
    using a_file(5) tf by auto
  moreover have "tf \<noteq> bf"
    using a_file(1) by auto
  moreover have "join bf n \<noteq> ?rd" if "isdir fs (join bf n)"
    using that by (simp add: real_dst_def)
  moreover have "join bf n = ?rd" if "\<not> isdir fs (join bf n)"
    using that by (simp add: real_dst_def)
  ultimately show "entry fs1 (join tf n) = (if tf = bf then entry fs (join tf n) else None)
      \<and> entry fs1 (join bf n) = (if isdir fs (join bf n) then Some Dir else entry fs (join tf n))
      \<and> entry fs1 tf = entry fs tf"
    using a_file(1,3,7,8) unfolding a_file(4)
    by (auto simp: entry_update entry_delete isdir_def)
next
  case a_folder
  let ?rd = "real_dst fs (join tf n) (join bf n)"
  have no: "\<not> prefix ?rd tf"
  proof
    assume "prefix ?rd tf"
    with assms(2) have "isdir fs ?rd" by (simp add: folders_exist_iff)
    with a_folder(6) show False by (simp add: isdir_def path_exists_def)
  qed
  have "tf \<noteq> bf"
    using a_folder(1) by auto
  have 1: "entry fs1 (join tf n) = None"
    unfolding a_folder(4)
    using a_folder(2,8) no by (intro entry_relocate_src) (auto simp: prefix_join)
  have 3: "entry fs1 tf = entry fs tf"
    unfolding a_folder(4) using no by (intro entry_relocate_other) simp_all
  have 2: "entry fs1 (join bf n) = Some Dir"
  proof (cases "isdir fs (join bf n)")
    case True
    then have rd: "?rd = join (join bf n) n"
      by (simp add: real_dst_def join_def)
    have "\<not> prefix (join tf n) (join bf n)"
      using a_folder(5) unfolding rd by (auto simp: prefix_join)
    then have "entry fs1 (join bf n) = entry fs (join bf n)"
      unfolding a_folder(4) rd by (intro entry_relocate_other) simp_all
    with True show ?thesis by (simp add: isdir_def)
  next
    case False
    then have rd: "?rd = join bf n"
      by (simp add: real_dst_def)
    have "entry fs1 ?rd = entry fs (join tf n)"
      unfolding a_folder(4) using a_folder(2,6) by (rule entry_relocate_dst)
    then show ?thesis
      using a_folder(3) by (simp add: rd)
  qed
  from 1 2 3 \<open>tf \<noteq> bf\<close> a_folder(3) show "entry fs1 (join tf n) = (if tf = bf then entry fs (join tf n) else None)
      \<and> entry fs1 (join bf n) = (if isdir fs (join bf n) then Some Dir else entry fs (join tf n))
      \<and> entry fs1 tf = entry fs tf"
    by simp
qed

lemma save_same_slot:
  assumes "entry fs tf = entry gs tf" "entry fs (join tf n) = entry gs (join tf n)"
    and "entry fs q = entry gs q"
  shows "fst (save env fs (join tf n) img) = fst (save env gs (join tf n) img)"
    and "entry (snd (save env fs (join tf n) img)) q = entry (snd (save env gs (join tf n) img)) q"
  using assms
  by (auto simp: save_def isdir_def entry_update split: save_result.splits option.splits)

lemma process_file_after_move:
  assumes "move env fs (join tf n) (join bf n) = Inr fs1"
  shows "process_file env tf bf tw th n fs =
     (case image_open env fs1 (join bf n) of
        Inl e \<Rightarrow> (fs1, FileFailed n e)
      | Inr img \<Rightarrow>
          (case trim_transparent_edges (mode env) img of
             Inl e \<Rightarrow> (fs1, FileFailed n e)
           | Inr trimmed \<Rightarrow>
               (case resize env trimmed (tw, th) of
                  Inl e \<Rightarrow> (fs1, FileFailed n e)
                | Inr resized \<Rightarrow>
                    (snd (save env fs1 (join tf n) resized),
                     (case fst (save env fs1 (join tf n) resized) of
                        Inl e \<Rightarrow> FileFailed n e
                      | Inr u \<Rightarrow> FileDone n)))))"
  using assms by (simp add: process_file_def Let_def split: sum.splits prod.splits)

lemma process_file_cong:
  assumes "same_slot tf bf fs gs n" "folders_exist fs tf" "folders_exist gs tf"
  shows "snd (process_file env tf bf tw th n fs) = snd (process_file env tf bf tw th n gs)"
    and "entry (fst (process_file env tf bf tw th n fs)) (join tf n)
         = entry (fst (process_file env tf bf tw th n gs)) (join tf n)"
    and "entry (fst (process_file env tf bf tw th n fs)) (join bf n)
         = entry (fst (process_file env tf bf tw th n gs)) (join bf n)"
proof (atomize (full), cases "move env fs (join tf n) (join bf n)")
  case (Inl e)
  then obtain e' where g: "move env gs (join tf n) (join bf n) = Inl e'"
    using move_fails_same_slot[OF assms(1), of env] by blast
  have "e = MoveError" "e' = MoveError"
    using Inl g move_error by blast+
  with Inl g assms(1)
  show "snd (process_file env tf bf tw th n fs) = snd (process_file env tf bf tw th n gs)
    \<and> entry (fst (process_file env tf bf tw th n fs)) (join tf n)
       = entry (fst (process_file env tf bf tw th n gs)) (join tf n)
    \<and> entry (fst (process_file env tf bf tw th n fs)) (join bf n)
       = entry (fst (process_file env tf bf tw th n gs)) (join bf n)"
    by (simp add: process_file_def same_slot_def)
next
  case (Inr fs1)
  then have "\<not> (\<exists>e. move env gs (join tf n) (join bf n) = Inl e)"
    using move_fails_same_slot[OF assms(1), of env] by simp
  then obtain gs1 where g: "move env gs (join tf n) (join bf n) = Inr gs1"
    by (cases "move env gs (join tf n) (join bf n)") auto
  have s: "entry fs tf = entry gs tf" "entry fs (join tf n) = entry gs (join tf n)"
    "entry fs (join bf n) = entry gs (join bf n)"
    using assms(1) by (simp_all add: same_slot_def)
  have e1: "entry fs1 (join tf n) = entry gs1 (join tf n)"
    using move_result(1)[OF Inr assms(2)] move_result(1)[OF g assms(3)] s by simp
  have e2: "entry fs1 (join bf n) = entry gs1 (join bf n)"
    using move_result(2)[OF Inr assms(2)] move_result(2)[OF g assms(3)] s by (simp add: isdir_def)
  have e3: "entry fs1 tf = entry gs1 tf"
    using move_result(3)[OF Inr assms(2)] move_result(3)[OF g assms(3)] s by simp
  have o: "image_open env fs1 (join bf n) = image_open env gs1 (join bf n)"
    using e2 by (simp add: image_open_def)
  show "snd (process_file env tf bf tw th n fs) = snd (process_file env tf bf tw th n gs)
    \<and> entry (fst (process_file env tf bf tw th n fs)) (join tf n)
       = entry (fst (process_file env tf bf tw th n gs)) (join tf n)
    \<and> entry (fst (process_file env tf bf tw th n fs)) (join bf n)
       = entry (fst (process_file env tf bf tw th n gs)) (join bf n)"
    unfolding process_file_after_move[OF Inr] process_file_after_move[OF g] o
    using e1 e2 save_same_slot[OF e3 e1 e1, of env] save_same_slot[OF e3 e1 e2, of env]
    by (simp split: sum.splits)
qed

lemma same_slot_refl: "same_slot tf bf fs fs n"
  by (simp add: same_slot_def)

lemma same_slot_sym: "same_slot tf bf fs gs n \<Longrightarrow> same_slot tf bf gs fs n"
  by (simp add: same_slot_def)

lemma same_slot_trans:
  "same_slot tf bf fs gs n \<Longrightarrow> same_slot tf bf gs hs n \<Longrightarrow> same_slot tf bf fs hs n"
  by (simp add: same_slot_def)

text \<open>
  The loop: each file gets the line it would get if it were processed alone, and the
  loop leaves at its source path and at its backup path what that would leave there.
\<close>

lemma process_files_each:
  assumes "distinct names" "folders_exist fs tf" "isdir fs bf"
  shows "snd (process_files env tf bf tw th names fs)
           = map (\<lambda>n. snd (process_file env tf bf tw th n fs)) names
         \<and> (\<forall>n\<in>set names.
               entry (fst (process_files env tf bf tw th names fs)) (join tf n)
                 = entry (fst (process_file env tf bf tw th n fs)) (join tf n)
               \<and> entry (fst (process_files env tf bf tw th names fs)) (join bf n)
                 = entry (fst (process_file env tf bf tw th n fs)) (join bf n))
         \<and> (\<forall>n. n \<notin> set names \<longrightarrow>
               same_slot tf bf (fst (process_files env tf bf tw th names fs)) fs n)
         \<and> folders_exist (fst (process_files env tf bf tw th names fs)) tf
         \<and> isdir (fst (process_files env tf bf tw th names fs)) bf"
  using assms
proof (induction names arbitrary: fs)
  case Nil
  then show ?case by (simp add: same_slot_refl)
next
  case (Cons a rest)
  let ?pf = "\<lambda>n fs. process_file env tf bf tw th n fs"
  let ?fs1 = "fst (?pf a fs)"
  let ?fs2 = "fst (process_files env tf bf tw th rest ?fs1)"
  have d: "distinct rest" "a \<notin> set rest"
    using Cons.prems by simp_all
  have inv1: "folders_exist ?fs1 tf" "isdir ?fs1 bf"
    by (rule process_file_keeps_folders[OF Cons.prems(2,3)])+
  note IH = Cons.IH[OF d(1) inv1]
  have fst_eq: "fst (process_files env tf bf tw th (a # rest) fs) = ?fs2"
    by (simp split: prod.splits)
  have snd_eq: "snd (process_files env tf bf tw th (a # rest) fs)
                = snd (?pf a fs) # snd (process_files env tf bf tw th rest ?fs1)"
    by (simp split: prod.splits)
  have other: "same_slot tf bf fs ?fs1 n" if "n \<noteq> a" for n
    using that Cons.prems(2,3) by (rule process_file_other)
  have cong: "snd (?pf n ?fs1) = snd (?pf n fs)
      \<and> entry (fst (?pf n ?fs1)) (join tf n) = entry (fst (?pf n fs)) (join tf n)
      \<and> entry (fst (?pf n ?fs1)) (join bf n) = entry (fst (?pf n fs)) (join bf n)"
    if "n \<noteq> a" for n
    using process_file_cong[OF same_slot_sym[OF other[OF that]] inv1(1) Cons.prems(2),
        where env = env and tw = tw and th = th]
    by simp
  have lines: "map (\<lambda>n. snd (?pf n ?fs1)) rest = map (\<lambda>n. snd (?pf n fs)) rest"
  proof (rule map_cong[OF refl])
    fix n assume "n \<in> set rest"
    then have "n \<noteq> a" using d(2) by blast
    then show "snd (?pf n ?fs1) = snd (?pf n fs)"
      using cong by blast
  qed
  have first: "entry ?fs2 (join tf a) = entry ?fs1 (join tf a)
               \<and> entry ?fs2 (join bf a) = entry ?fs1 (join bf a)"
  proof -
    have "same_slot tf bf ?fs2 ?fs1 a"
      using IH d(2) by blast
    then show ?thesis by (simp add: same_slot_def)
  qed
  have rest_slots: "entry ?fs2 (join tf n) = entry (fst (?pf n fs)) (join tf n)
                    \<and> entry ?fs2 (join bf n) = entry (fst (?pf n fs)) (join bf n)"
    if n: "n \<in> set rest" for n
  proof -
    have "n \<noteq> a" using n d(2) by blast
    then show ?thesis
      using cong[of n] IH n by simp
  qed
  have outside: "same_slot tf bf ?fs2 fs n" if n: "n \<notin> set (a # rest)" for n
  proof -
    have "same_slot tf bf ?fs2 ?fs1 n" using IH n by simp
    moreover have "same_slot tf bf ?fs1 fs n"
      using other[of n] n by (simp add: same_slot_sym)
    ultimately show ?thesis using same_slot_trans by blast
  qed
  have inv2: "folders_exist ?fs2 tf" "isdir ?fs2 bf"
    using IH by simp_all
  show ?case
    unfolding fst_eq snd_eq using IH lines first rest_slots outside inv2 by auto
qed

subsection \<open>The folders and the listing at the start of the loop\<close>

lemma folders_exist_with_backup_folder:
  "folders_exist fs tf \<Longrightarrow> folders_exist (with_backup_folder fs bf) tf"
  by (simp add: folders_exist_iff with_backup_folder_def isdir_new_folders)

lemma isdir_with_backup_folder:
  assumes "isdir fs bf \<or> fst (makedirs env fs bf) = Inr ()"
  shows "isdir (with_backup_folder fs bf) bf"
proof (cases "isdir fs bf")
  case True
  then show ?thesis by (simp add: with_backup_folder_def)
next
  case False
  with assms have ok: "fst (makedirs env fs bf) = Inr ()" by simp
  have "\<not> path_exists fs bf"
    using ok by (cases rule: makedirs_cases[of env fs bf]) simp_all
  then have "bf \<in> set (missing_folders fs bf)" "entry fs bf = None"
    by (simp_all add: missing_folders_def in_set_prefixes path_exists_def)
  then show ?thesis
    using False by (simp add: with_backup_folder_def isdir_def entry_new_folders)
qed

lemma distinct_children:
  assumes "distinct (map fst fs)"
  shows "distinct (children fs d)"
proof -
  have c: "children fs d = map last (filter (\<lambda>p. p \<noteq> [] \<and> butlast p = d) (map fst fs))"
    by (induction fs) (auto simp: children_def)
  have "inj_on last {p. p \<noteq> [] \<and> butlast p = d}"
    by (rule inj_onI) (metis (mono_tags, lifting) append_butlast_last_id mem_Collect_eq)
  then have "inj_on last (set (filter (\<lambda>p. p \<noteq> [] \<and> butlast p = d) (map fst fs)))"
    by (rule inj_on_subset) auto
  then show ?thesis
    unfolding c using assms by (simp add: distinct_map)
qed

lemma distinct_listed_png_files:
  fixes fs :: "'a filesystem"
  assumes "distinct (children fs tf)"
  shows "distinct (listed_png_files fs tf bf)"
proof (cases "isdir fs bf")
  case True
  then show ?thesis
    using assms by (simp add: listed_png_files_def with_backup_folder_def)
next
  case False
  let ?new = "map (\<lambda>q. (q, Dir :: 'a node)) (missing_folders fs bf)"
  have "distinct (prefixes bf)"
    by (induction bf) (auto simp: distinct_map)
  then have "distinct (map fst ?new)"
    by (simp add: comp_def missing_folders_def)
  then have 1: "distinct (children ?new tf)"
    by (rule distinct_children)
  have 2: "set (children fs tf) \<inter> set (children ?new tf) = {}"
  proof -
    have False if "n \<in> set (children fs tf)" "n \<in> set (children ?new tf)" for n
    proof -
      from that(1) have "path_exists fs (join tf n)"
        by (simp add: in_children_exists)
      moreover from that(2) have "join tf n \<in> set (missing_folders fs bf)"
        by (simp add: children_new_folders)
      ultimately show False
        using missing_folders_sound by blast
    qed
    then show ?thesis by blast
  qed
  have "children (with_backup_folder fs bf) tf = children fs tf @ children ?new tf"
    using False by (simp add: with_backup_folder_def children_append)
  moreover have "distinct (children fs tf @ children ?new tf)"
    using assms 1 2 by simp
  ultimately show ?thesis
    unfolding listed_png_files_def by (simp only: distinct_filter)
qed

lemma makedirs_ok:
  "fst (makedirs env fs bf) = Inr () \<Longrightarrow> snd (makedirs env fs bf) = fs @ map (\<lambda>q. (q, Dir)) (missing_folders fs bf)"
  by (cases rule: makedirs_cases[of env fs bf]) simp_all

text \<open>A run that reaches the loop.\<close>

lemma run_loop:
  assumes "isdir fs tf" "isdir fs bf \<or> fst (makedirs env fs bf) = Inr ()"
    "\<not> listdir_fails env tf" "listed_png_files fs tf bf \<noteq> []"
  shows "resize_replace_and_backup env fs tf bf tw th =
     \<lparr>filesystem = fst (process_files env tf bf tw th (listed_png_files fs tf bf)
                          (with_backup_folder fs bf)),
      printed = backup_notice fs bf
                @ [ProcessingCount (length (listed_png_files fs tf bf))]
                @ snd (process_files env tf bf tw th (listed_png_files fs tf bf)
                         (with_backup_folder fs bf))
                @ [AllDone],
      uncaught = None\<rparr>"
  using assms by (auto simp: run_unfold listed_png_files_def)

lemma run_file_done:
  assumes "isdir fs tf"
    and "FileDone n \<in> set (printed (resize_replace_and_backup env fs tf bf tw th))"
  shows "(isdir fs bf \<or> fst (makedirs env fs bf) = Inr ())
         \<and> \<not> listdir_fails env tf \<and> listed_png_files fs tf bf \<noteq> []"
  using assms(2) unfolding run_unfold[OF assms(1)] listed_png_files_def
  by (auto simp: backup_notice_def split: if_splits)

subsection \<open>Claims about the batch\<close>

lemma example_listing:
  "folders_exist example_fs [''original_pngs'']"
  "distinct (children example_fs [''original_pngs''])"
  "isdir example_fs [''used_pngs'']"
  "with_backup_folder example_fs [''used_pngs''] = example_fs"
  "backup_notice example_fs [''used_pngs''] = []"
  "listed_png_files example_fs [''original_pngs''] [''used_pngs'']
     = [''a.png'', ''b.png'', ''C.PNG'']"
  by (simp_all add: folders_exist_def listed_png_files_def with_backup_folder_def
      backup_notice_def children_def isdir_def entry_def is_png_examples example_fs_def)

lemma example_files:
  "process_file example_env [''original_pngs''] [''used_pngs''] 2 1 ''a.png'' example_fs =
     (AList.update [''original_pngs'', ''a.png'']
        (File (Png \<lparr>width = 2, height = 1, pixels = [[solid_px, faint_px]]\<rparr>))
        (AList.update [''used_pngs'', ''a.png''] (File (Png block_image))
           (AList.delete [''original_pngs'', ''a.png''] example_fs)),
      FileDone ''a.png'')"
  "process_file example_env [''original_pngs''] [''used_pngs''] 2 1 ''b.png'' example_fs =
     (AList.update [''used_pngs'', ''b.png''] (File Garbage)
        (AList.delete [''original_pngs'', ''b.png''] example_fs),
      FileFailed ''b.png'' OpenError)"
  "process_file example_env [''original_pngs''] [''used_pngs''] 2 1 ''C.PNG'' example_fs =
     (AList.update [''original_pngs'', ''C.PNG'']
        (File (Png \<lparr>width = 2, height = 1, pixels = [[solid_px, clear_px]]\<rparr>))
        (AList.update [''used_pngs'', ''C.PNG''] (File (Png corner_image))
           (AList.delete [''original_pngs'', ''C.PNG''] example_fs)),
      FileDone ''C.PNG'')"
  by (simp_all add: fs_eval trim_eval example_fs_def block_image_def corner_image_def)

text \<open>
  C7. In a file system where the folders on the way to the source folder exist and the
  source folder lists no name twice, every file that a run reports as done holds, at its
  source path when the run has ended, an encoded image that is exactly \<open>tw\<close> pixels
  wide and \<open>th\<close> pixels high, whatever the size of the image that was there.
\<close>

theorem resized_files_have_target_size:
  assumes "folders_exist fs tf" "distinct (children fs tf)"
    and "FileDone n \<in> set (printed (resize_replace_and_backup env fs tf bf tw th))"
  shows "\<exists>img. entry (filesystem (resize_replace_and_backup env fs tf bf tw th)) (join tf n)
                  = Some (File (encode env img))
               \<and> int (width img) = tw \<and> int (height img) = th \<and> wf_image img"
proof -
  let ?names = "listed_png_files fs tf bf"
  let ?fs1 = "with_backup_folder fs bf"
  let ?pf = "\<lambda>n. process_file env tf bf tw th n ?fs1"
  have tf: "isdir fs tf"
    using assms(1) by (rule folders_exist_isdir)
  note loop = run_file_done[OF tf assms(3)]
  have run: "resize_replace_and_backup env fs tf bf tw th =
     \<lparr>filesystem = fst (process_files env tf bf tw th ?names ?fs1),
      printed = backup_notice fs bf @ [ProcessingCount (length ?names)]
                @ snd (process_files env tf bf tw th ?names ?fs1) @ [AllDone],
      uncaught = None\<rparr>"
    using loop by (intro run_loop[OF tf]) simp_all
  have inv: "folders_exist ?fs1 tf" "isdir ?fs1 bf"
    using assms(1) loop isdir_with_backup_folder[of fs bf env]
    by (simp_all add: folders_exist_with_backup_folder)
  note each = process_files_each[OF distinct_listed_png_files[OF assms(2)] inv,
      where env = env and tw = tw and th = th]
  have "FileDone n \<in> set (snd (process_files env tf bf tw th ?names ?fs1))"
    using assms(3) unfolding run by (auto simp: backup_notice_def split: if_splits)
  then obtain m where m: "m \<in> set ?names" "snd (?pf m) = FileDone n"
    using each by auto
  then have "m = n"
    using process_file_line[of env tf bf tw th m ?fs1] by auto
  with m have n: "n \<in> set ?names" "snd (?pf n) = FileDone n"
    by simp_all
  have "entry (filesystem (resize_replace_and_backup env fs tf bf tw th)) (join tf n)
        = entry (fst (?pf n)) (join tf n)"
    unfolding run using each n(1) by simp
  with process_file_done[OF n(2)] show ?thesis
    by simp
qed

theorem resized_files_have_target_size_witness:
  "folders_exist example_fs [''original_pngs'']
   \<and> distinct (children example_fs [''original_pngs''])
   \<and> FileDone ''C.PNG'' \<in> set (printed (resize_replace_and_backup example_env example_fs
        [''original_pngs''] [''used_pngs''] 2 1))
   \<and> width corner_image = 2 \<and> height corner_image = 2
   \<and> (\<exists>img. entry (filesystem (resize_replace_and_backup example_env example_fs
                 [''original_pngs''] [''used_pngs''] 2 1)) [''original_pngs'', ''C.PNG'']
               = Some (File (Png img))
             \<and> width img = 2 \<and> height img = 1)"
proof -
  have run: "printed (resize_replace_and_backup example_env example_fs
               [''original_pngs''] [''used_pngs''] 2 1)
             = [ProcessingCount 3, FileDone ''a.png'', FileFailed ''b.png'' OpenError,
                FileDone ''C.PNG'', AllDone]"
  proof -
    have "isdir example_fs [''original_pngs'']"
      using example_listing(1) by (rule folders_exist_isdir)
    then have "printed (resize_replace_and_backup example_env example_fs
                 [''original_pngs''] [''used_pngs''] 2 1)
               = [ProcessingCount 3]
                 @ snd (process_files example_env [''original_pngs''] [''used_pngs''] 2 1
                          [''a.png'', ''b.png'', ''C.PNG''] example_fs)
                 @ [AllDone]"
      using example_listing(3-6)
      by (subst run_loop) (simp_all add: example_env_def)
    moreover have "snd (process_files example_env [''original_pngs''] [''used_pngs''] 2 1
                          [''a.png'', ''b.png'', ''C.PNG''] example_fs)
                   = [FileDone ''a.png'', FileFailed ''b.png'' OpenError, FileDone ''C.PNG'']"
      using process_files_each[OF _ example_listing(1,3), of "[''a.png'', ''b.png'', ''C.PNG'']"
              example_env 2 1]
      by (simp add: example_files)
    ultimately show ?thesis by simp
  qed
  have reported: "FileDone ''C.PNG'' \<in> set (printed (resize_replace_and_backup example_env example_fs
        [''original_pngs''] [''used_pngs''] 2 1))"
    by (simp add: run)
  from resized_files_have_target_size[OF example_listing(1,2) reported]
  show ?thesis
    using example_listing(1,2) reported by (auto simp: join_def example_env_def corner_image_def)
qed




end
